theory Spec2Isabelle
  imports Complex_Main
begin

section \<open>Floating-point values\<close>

text \<open>
  The notebook computes with Python floats and NumPy \<open>float64\<close> scalars: IEEE 754 binary64
  numbers.  A value is a real number or one of the three special values; \<open>-0.0\<close> is identified
  with \<open>0.0\<close>.  Python integers are unbounded.
\<close>

datatype float64 = Fin real | PInf | MInf | NaN

datatype pyerror = ZeroDivisionError | OverflowError | ValueError

text \<open>
  The exact results of the arithmetic operations, before rounding.  On the special values
  they follow IEEE 754 as NumPy applies it: an invalid operation yields \<open>NaN\<close> and a division
  by zero yields an infinity (NumPy warns, it does not raise).
\<close>

fun np_neg :: "float64 \<Rightarrow> float64" where
  "np_neg (Fin a) = Fin (- a)"
| "np_neg PInf = MInf"
| "np_neg MInf = PInf"
| "np_neg NaN = NaN"

fun np_abs :: "float64 \<Rightarrow> float64" where
  "np_abs (Fin a) = Fin \<bar>a\<bar>"
| "np_abs PInf = PInf"
| "np_abs MInf = PInf"
| "np_abs NaN = NaN"

fun np_add :: "float64 \<Rightarrow> float64 \<Rightarrow> float64" where
  "np_add (Fin a) (Fin b) = Fin (a + b)"
| "np_add NaN _ = NaN"
| "np_add _ NaN = NaN"
| "np_add PInf MInf = NaN"
| "np_add MInf PInf = NaN"
| "np_add PInf _ = PInf"
| "np_add _ PInf = PInf"
| "np_add MInf _ = MInf"
| "np_add _ MInf = MInf"

definition np_sub :: "float64 \<Rightarrow> float64 \<Rightarrow> float64" where
  "np_sub x y = np_add x (np_neg y)"

fun np_mul :: "float64 \<Rightarrow> float64 \<Rightarrow> float64" where
  "np_mul (Fin a) (Fin b) = Fin (a * b)"
| "np_mul NaN _ = NaN"
| "np_mul _ NaN = NaN"
| "np_mul (Fin a) PInf = (if a = 0 then NaN else if 0 < a then PInf else MInf)"
| "np_mul (Fin a) MInf = (if a = 0 then NaN else if 0 < a then MInf else PInf)"
| "np_mul PInf (Fin b) = (if b = 0 then NaN else if 0 < b then PInf else MInf)"
| "np_mul MInf (Fin b) = (if b = 0 then NaN else if 0 < b then MInf else PInf)"
| "np_mul PInf PInf = PInf"
| "np_mul MInf MInf = PInf"
| "np_mul PInf MInf = MInf"
| "np_mul MInf PInf = MInf"

fun np_div :: "float64 \<Rightarrow> float64 \<Rightarrow> float64" where
  "np_div (Fin a) (Fin b) =
     (if b = 0 then (if a = 0 then NaN else if 0 < a then PInf else MInf) else Fin (a / b))"
| "np_div NaN _ = NaN"
| "np_div _ NaN = NaN"
| "np_div (Fin a) _ = Fin 0"
| "np_div PInf (Fin b) = (if 0 \<le> b then PInf else MInf)"
| "np_div MInf (Fin b) = (if 0 \<le> b then MInf else PInf)"
| "np_div _ _ = NaN"

fun np_sqrt :: "float64 \<Rightarrow> float64" where
  "np_sqrt (Fin a) = (if a < 0 then NaN else Fin (sqrt a))"
| "np_sqrt PInf = PInf"
| "np_sqrt MInf = NaN"
| "np_sqrt NaN = NaN"


section \<open>Rounding to binary64\<close>

text \<open>
  The finite binary64 numbers are the numbers \<open>m * 2^e\<close> with \<open>\<bar>m\<bar> < 2^53\<close> and
  \<open>-1074 \<le> e \<le> 971\<close>.  \<open>rne\<close> rounds a real number to the nearest integer, a tie to the even
  one.  \<open>expo x\<close> is the exponent of the unit in the last place of \<open>x\<close>: 52 below the exponent
  of \<open>x\<close>, and \<open>-1074\<close> for the subnormal numbers.  \<open>rnd\<close> rounds to the nearest multiple of
  that unit.  \<open>fl\<close> is the rounding that every operation applies to its exact result: a
  result at or beyond \<open>overflow_threshold\<close>, the midpoint of the largest float
  \<open>2^1024 - 2^971\<close> and \<open>2^1024\<close>, overflows to an infinity.
\<close>

definition rne :: "real \<Rightarrow> int" where
  "rne y = (let f = \<lfloor>y\<rfloor> in
     if y - of_int f < 1 / 2 then f
     else if 1 / 2 < y - of_int f then f + 1
     else if even f then f else f + 1)"

definition expo :: "real \<Rightarrow> int" where
  "expo x = max (\<lfloor>log 2 \<bar>x\<bar>\<rfloor> - 52) (- 1074)"

definition rnd :: "real \<Rightarrow> real" where
  "rnd x = (if x = 0 then 0 else of_int (rne (x / 2 powi expo x)) * 2 powi expo x)"

definition overflow_threshold :: real where
  "overflow_threshold = 2 ^ 1024 - 2 ^ 970"

definition fl :: "real \<Rightarrow> float64" where
  "fl x = (if overflow_threshold \<le> x then PInf
          else if x \<le> - overflow_threshold then MInf
          else Fin (rnd x))"

fun f64 :: "float64 \<Rightarrow> float64" where
  "f64 (Fin a) = fl a"
| "f64 PInf = PInf"
| "f64 MInf = MInf"
| "f64 NaN = NaN"

text \<open>The floating-point operations: the exact result, rounded.\<close>

definition f64_add :: "float64 \<Rightarrow> float64 \<Rightarrow> float64" where
  "f64_add x y = f64 (np_add x y)"

definition f64_sub :: "float64 \<Rightarrow> float64 \<Rightarrow> float64" where
  "f64_sub x y = f64 (np_sub x y)"

definition f64_mul :: "float64 \<Rightarrow> float64 \<Rightarrow> float64" where
  "f64_mul x y = f64 (np_mul x y)"

definition f64_div :: "float64 \<Rightarrow> float64 \<Rightarrow> float64" where
  "f64_div x y = f64 (np_div x y)"

definition f64_sqrt :: "float64 \<Rightarrow> float64" where
  "f64_sqrt x = f64 (np_sqrt x)"

text \<open>
  Python's own operations.  \<open>k / n\<close> on integers is the correctly rounded quotient; it raises
  \<open>ZeroDivisionError\<close> for \<open>n = 0\<close> and \<open>OverflowError\<close> when the quotient is too large for a
  float.  An integer operand of a float operation is converted first, which raises
  \<open>OverflowError\<close> when the integer is too large for a float.  \<open>/\<close> on floats raises
  \<open>ZeroDivisionError\<close> for a zero divisor.
\<close>

definition py_int_truediv :: "int \<Rightarrow> int \<Rightarrow> pyerror + float64" where
  "py_int_truediv k n =
     (if n = 0 then Inl ZeroDivisionError
      else case fl (real_of_int k / real_of_int n) of
             Fin r \<Rightarrow> Inr (Fin r)
           | _ \<Rightarrow> Inl OverflowError)"

definition py_float_of_int :: "int \<Rightarrow> pyerror + float64" where
  "py_float_of_int n =
     (case fl (real_of_int n) of
        Fin r \<Rightarrow> Inr (Fin r)
      | _ \<Rightarrow> Inl OverflowError)"

definition py_float_truediv :: "float64 \<Rightarrow> float64 \<Rightarrow> pyerror + float64" where
  "py_float_truediv x y = (if y = Fin 0 then Inl ZeroDivisionError else Inr (f64_div x y))"


section \<open>The standard normal distribution (\<open>scipy.stats.norm\<close>)\<close>

text \<open>
  \<open>gauss_area x\<close> is the area under \<open>exp (- t\<^sup>2 / 2)\<close> between \<open>0\<close> and \<open>x\<close>, given by its
  Maclaurin series \<open>\<Sum>m. (-1)^m x^(2m+1) / (2^m m! (2m+1))\<close>.  \<open>gauss_mass\<close> is the least upper
  bound of these areas, that is the area over the whole half line (its value is
  \<open>sqrt (pi / 2)\<close>, about \<open>1.2533141\<close>; the bounds \<open>gauss_mass_lower\<close> and \<open>gauss_mass_upper\<close>
  below are all that is used of it).  So \<open>std_normal_cdf\<close> is the distribution function whose
  density is proportional to \<open>exp (- x\<^sup>2 / 2)\<close> and whose total mass is \<open>1\<close>: it is strictly
  increasing from \<open>0\<close> to \<open>1\<close>, and its derivative is \<open>exp (- x\<^sup>2 / 2) / (2 gauss_mass)\<close>.  The
  quantile function is its inverse on \<open>(0, 1)\<close>.  \<open>norm.cdf\<close> and \<open>norm.sf\<close> are modelled
  as returning these values exactly, and the limits at the ends of the domain.
\<close>

definition gauss_coeff :: "nat \<Rightarrow> real" where
  "gauss_coeff n =
     (if odd n then (- 1) ^ (n div 2) / (2 ^ (n div 2) * fact (n div 2) * real n) else 0)"

definition gauss_area :: "real \<Rightarrow> real" where
  "gauss_area x = (\<Sum>n. gauss_coeff n * x ^ n)"

definition gauss_mass :: real where
  "gauss_mass = Sup (range gauss_area)"

definition std_normal_cdf :: "real \<Rightarrow> real" where
  "std_normal_cdf x = 1 / 2 + gauss_area x / (2 * gauss_mass)"

definition std_normal_quantile :: "real \<Rightarrow> real" where
  "std_normal_quantile q = (THE x. std_normal_cdf x = q)"

fun norm_cdf :: "float64 \<Rightarrow> float64" where
  "norm_cdf (Fin x) = Fin (std_normal_cdf x)"
| "norm_cdf PInf = Fin 1"
| "norm_cdf MInf = Fin 0"
| "norm_cdf NaN = NaN"

text \<open>The survival function: SciPy evaluates it as the distribution function at \<open>-x\<close>.\<close>

definition norm_sf :: "float64 \<Rightarrow> float64" where
  "norm_sf x = norm_cdf (np_neg x)"

text \<open>
  \<open>norm.ppf\<close> returns a float: the quantile is modelled as correctly rounded.
\<close>

fun norm_ppf :: "float64 \<Rightarrow> float64" where
  "norm_ppf (Fin q) =
     (if q < 0 \<or> 1 < q then NaN
      else if q = 0 then MInf
      else if q = 1 then PInf
      else fl (std_normal_quantile q))"
| "norm_ppf _ = NaN"


section \<open>The notebook\<close>

text \<open>
  \<^verbatim>\<open>
  def proportion_ci(k: int, n: int, alpha: float = 0.05):
      p_hat = k / n
      z = norm.ppf(1 - alpha / 2)
      se = np.sqrt(p_hat * (1 - p_hat) / n)   # standard error
      half_width = z * se
      return p_hat, p_hat - half_width, p_hat + half_width
  \<close>
  Every operation rounds its result.  \<open>k / n\<close> divides two integers; in \<open>alpha / 2\<close> and in
  \<open>... / n\<close> the integer is converted to a float first.
\<close>

definition proportion_ci :: "int \<Rightarrow> int \<Rightarrow> float64 \<Rightarrow> pyerror + (float64 \<times> float64 \<times> float64)" where
  "proportion_ci k n alpha =
     (case py_int_truediv k n of
        Inl e \<Rightarrow> Inl e
      | Inr p_hat \<Rightarrow>
         (case py_float_truediv alpha (Fin 2) of
            Inl e \<Rightarrow> Inl e
          | Inr half_alpha \<Rightarrow>
             let z = norm_ppf (f64_sub (Fin 1) half_alpha) in
             (case py_float_of_int n of
                Inl e \<Rightarrow> Inl e
              | Inr n_f \<Rightarrow>
                 (case py_float_truediv (f64_mul p_hat (f64_sub (Fin 1) p_hat)) n_f of
                    Inl e \<Rightarrow> Inl e
                  | Inr var \<Rightarrow>
                     let se = f64_sqrt var;
                         half_width = f64_mul z se
                     in Inr (p_hat, f64_sub p_hat half_width, f64_add p_hat half_width)))))"

text \<open>The default \<open>alpha = 0.05\<close>: the float nearest to \<open>0.05\<close>.\<close>

definition default_alpha :: float64 where
  "default_alpha = fl (5 / 100)"

text \<open>
  The notebook calls the library function \<open>statsmodels.stats.proportion.proportions_ztest\<close>.
  It is modelled in exact arithmetic, on unbounded integer counts (the sums of NumPy's
  \<open>int64\<close> arrays wrap around beyond \<open>2^63\<close>): what is proved of it below (a sign, a \<open>NaN\<close>,
  bounds with a margin) does not turn on the last digits.  Its two-sample case, with the defaults
  \<open>value=None\<close> (taken as \<open>0\<close>) and \<open>prop_var=False\<close>, computes:
  \<^verbatim>\<open>
      prop = count * 1. / nobs
      diff = prop[0] - prop[1] - value
      p_pooled = np.sum(count) * 1. / np.sum(nobs)
      nobs_fact = np.sum(1. / nobs)
      var_ = p_pooled * (1 - p_pooled) * nobs_fact
      std_diff = np.sqrt(var_)
      zstat = diff / std_diff
      if alternative in ['two-sided', '2-sided', '2s']:
          pvalue = stats.norm.sf(np.abs(zstat))*2
      elif alternative in ['larger', 'l']:
          pvalue = stats.norm.sf(zstat)
      elif alternative in ['smaller', 's']:
          pvalue = stats.norm.cdf(zstat)
      else:
          raise ValueError('invalid alternative')
      return zstat, pvalue
  \<close>
  The difference is the first sample's proportion minus the second's, and \<open>'larger'\<close> asks
  whether the first proportion is the larger one.  The output stored in the notebook for its
  run, \<open>Z-statistic = -6.655, p-value = 1.0000\<close>, is the one this definition gives (see the
  section on the recorded run).
\<close>

definition proportions_ztest ::
  "int \<times> int \<Rightarrow> int \<times> int \<Rightarrow> string \<Rightarrow> pyerror + (float64 \<times> float64)" where
  "proportions_ztest count nobs alternative =
     (let prop0 = np_div (Fin (real_of_int (fst count) * 1)) (Fin (real_of_int (fst nobs)));
          prop1 = np_div (Fin (real_of_int (snd count) * 1)) (Fin (real_of_int (snd nobs)));
          diff = np_sub (np_sub prop0 prop1) (Fin 0);
          p_pooled = np_div (Fin (real_of_int (fst count + snd count) * 1))
                            (Fin (real_of_int (fst nobs + snd nobs)));
          nobs_fact = np_add (np_div (Fin 1) (Fin (real_of_int (fst nobs))))
                             (np_div (Fin 1) (Fin (real_of_int (snd nobs))));
          var = np_mul (np_mul p_pooled (np_sub (Fin 1) p_pooled)) nobs_fact;
          std_diff = np_sqrt var;
          zstat = np_div diff std_diff
      in if alternative \<in> set [''two-sided'', ''2-sided'', ''2s'']
           then Inr (zstat, np_mul (norm_sf (np_abs zstat)) (Fin 2))
         else if alternative \<in> set [''larger'', ''l'']
           then Inr (zstat, norm_sf zstat)
         else if alternative \<in> set [''smaller'', ''s'']
           then Inr (zstat, norm_cdf zstat)
         else Inl ValueError)"

text \<open>
  \<^verbatim>\<open>
  count = np.array([success_A, success_B])
  nobs  = np.array([n_A, n_B])
  stat, pval = proportions_ztest(count, nobs, alternative='larger')  # 'larger' tests B > A
  \<close>
  Variant A is the first observation and variant B the second; the direction is fixed.
\<close>

definition ab_ztest :: "int \<Rightarrow> int \<Rightarrow> int \<Rightarrow> int \<Rightarrow> pyerror + (float64 \<times> float64)" where
  "ab_ztest success_A n_A success_B n_B =
     proportions_ztest (success_A, success_B) (n_A, n_B) ''larger''"


section \<open>The specification's formulas\<close>

text \<open>
  The interval the specification describes, in exact real arithmetic: \<open>p\<^sub>h = k / n\<close>,
  \<open>se = sqrt (p\<^sub>h (1 - p\<^sub>h) / n)\<close>, \<open>z\<close> the inverse standard normal distribution function at
  \<open>1 - alpha / 2\<close>, and the interval \<open>[p\<^sub>h - z se, p\<^sub>h + z se]\<close>.  \<open>wald_half_width_at\<close> is the
  half width \<open>z se\<close> for \<open>z\<close> the inverse at a given probability \<open>q\<close>.
\<close>

definition wald_point_spec :: "int \<Rightarrow> int \<Rightarrow> real" where
  "wald_point_spec k n = real_of_int k / real_of_int n"

definition wald_se_spec :: "int \<Rightarrow> int \<Rightarrow> real" where
  "wald_se_spec k n = sqrt (wald_point_spec k n * (1 - wald_point_spec k n) / real_of_int n)"

definition wald_half_width_at :: "int \<Rightarrow> int \<Rightarrow> real \<Rightarrow> real" where
  "wald_half_width_at k n q = std_normal_quantile q * wald_se_spec k n"

text \<open>
  The tester the specification describes: pooled proportion, pooled standard error and the
  statistic \<open>z = (p\<^sub>2 - p\<^sub>1) / SE\<close>.
\<close>

definition pooled_proportion_spec :: "int \<Rightarrow> int \<Rightarrow> int \<Rightarrow> int \<Rightarrow> real" where
  "pooled_proportion_spec k1 n1 k2 n2 = real_of_int (k1 + k2) / real_of_int (n1 + n2)"

definition pooled_se_spec :: "int \<Rightarrow> int \<Rightarrow> int \<Rightarrow> int \<Rightarrow> real" where
  "pooled_se_spec k1 n1 k2 n2 =
     sqrt (pooled_proportion_spec k1 n1 k2 n2 * (1 - pooled_proportion_spec k1 n1 k2 n2)
           * (1 / real_of_int n1 + 1 / real_of_int n2))"

definition z_statistic_spec :: "int \<Rightarrow> int \<Rightarrow> int \<Rightarrow> int \<Rightarrow> real" where
  "z_statistic_spec k1 n1 k2 n2 =
     (real_of_int k2 / real_of_int n2 - real_of_int k1 / real_of_int n1) / pooled_se_spec k1 n1 k2 n2"


section \<open>Auxiliary definitions\<close>

text \<open>
  The partial sums of the series of \<open>gauss_area\<close>; they bracket it and give its numerical
  values.
\<close>

definition gauss_poly :: "nat \<Rightarrow> real \<Rightarrow> real" where
  "gauss_poly N x = (\<Sum>m<N. (- 1) ^ m * x ^ (2 * m + 1) / (2 ^ m * fact m * real (2 * m + 1)))"

text \<open>
  The floats the estimator computes on the way, when none of them is special: the point
  estimate, the variance, the standard error, the probability \<open>1 - alpha / 2\<close>, the quantile
  and the half width.
\<close>

definition p_hat_f :: "int \<Rightarrow> int \<Rightarrow> real" where
  "p_hat_f k n = rnd (real_of_int k / real_of_int n)"

definition var_f :: "int \<Rightarrow> int \<Rightarrow> real" where
  "var_f k n = rnd (rnd (p_hat_f k n * rnd (1 - p_hat_f k n)) / rnd (real_of_int n))"

definition se_f :: "int \<Rightarrow> int \<Rightarrow> real" where
  "se_f k n = rnd (sqrt (var_f k n))"

definition q_f :: "real \<Rightarrow> real" where
  "q_f alpha = rnd (1 - rnd (alpha / 2))"

definition z_f :: "real \<Rightarrow> real" where
  "z_f alpha = rnd (std_normal_quantile (q_f alpha))"

definition hw_f :: "int \<Rightarrow> int \<Rightarrow> real \<Rightarrow> real" where
  "hw_f k n alpha = rnd (z_f alpha * se_f k n)"

section \<open>Properties of the standard normal distribution function\<close>

lemma exp_series_real: "(\<lambda>m. u ^ m / fact m) sums exp u" for u :: real
proof -
  have "(\<lambda>m. u ^ m /\<^sub>R fact m) = (\<lambda>m. u ^ m / fact m)"
    by (simp add: divide_inverse mult_ac)
  then show ?thesis using exp_converges [of u] by simp
qed

lemma exp_series_norm_summable: "summable (\<lambda>m. norm (u ^ m / fact m))" for u :: real
proof -
  have eq: "u ^ m /\<^sub>R fact m = u ^ m / fact m" for m
    by (simp add: divide_inverse mult_ac)
  show ?thesis using summable_norm_exp [of u] unfolding eq .
qed

lemma gauss_term_sums:
  "(\<lambda>m. (- (x\<^sup>2 / 2)) ^ m / fact m) sums exp (- (x\<^sup>2 / 2))" for x :: real
  by (rule exp_series_real)

lemma gauss_coeff_summable: "summable (\<lambda>n. gauss_coeff n * y ^ n)"
proof -
  let ?g = "\<lambda>m. y * ((- (y\<^sup>2 / 2)) ^ m / fact m) / real (2 * m + 1)"
  have "summable (\<lambda>m. norm ((- (y\<^sup>2 / 2)) ^ m / fact m))"
    by (rule exp_series_norm_summable)
  then have "summable (\<lambda>m. norm ((- (y\<^sup>2 / 2)) ^ m / fact m) * \<bar>y\<bar>)"
    by (rule summable_mult2)
  then have "summable ?g"
  proof (rule summable_comparison_test [rotated], intro exI allI impI)
    fix m :: nat
    have "norm (?g m) = norm ((- (y\<^sup>2 / 2)) ^ m / fact m) * \<bar>y\<bar> / real (2 * m + 1)"
      by (simp add: norm_mult norm_divide abs_mult)
    also have "\<dots> \<le> norm ((- (y\<^sup>2 / 2)) ^ m / fact m) * \<bar>y\<bar> / 1"
      by (rule divide_left_mono) (auto intro!: mult_nonneg_nonneg)
    finally show "norm (?g m) \<le> norm ((- (y\<^sup>2 / 2)) ^ m / fact m) * \<bar>y\<bar>" by simp
  qed
  then have "summable (\<lambda>n. if even n then 0 else ?g ((n - 1) div 2))"
    using sums_if' [of ?g] by (auto simp: sums_iff)
  moreover have "(\<lambda>n. if even n then 0 else ?g ((n - 1) div 2)) = (\<lambda>n. gauss_coeff n * y ^ n)"
  proof
    fix n :: nat
    show "(if even n then 0 else ?g ((n - 1) div 2)) = gauss_coeff n * y ^ n"
    proof (cases "even n")
      case True
      then show ?thesis by (simp add: gauss_coeff_def)
    next
      case False
      then obtain m where n: "n = 2 * m + 1" by (auto elim: oddE)
      have "(- (y\<^sup>2 / 2)) ^ m = (- 1) ^ m * (y\<^sup>2 / 2) ^ m"
        by (rule power_minus)
      then show ?thesis
        by (simp add: n gauss_coeff_def power_mult power_divide)
    qed
  qed
  ultimately show ?thesis by simp
qed

lemma gauss_coeff_diffs:
  "diffs gauss_coeff n = (if even n then (- 1) ^ (n div 2) / (2 ^ (n div 2) * fact (n div 2)) else 0)"
proof (cases "even n")
  case True
  then obtain m where n: "n = 2 * m" by (auto elim: evenE)
  show ?thesis by (simp add: n diffs_def gauss_coeff_def)
next
  case False
  then show ?thesis by (simp add: diffs_def gauss_coeff_def)
qed

lemma gauss_density_sums:
  "(\<lambda>n. diffs gauss_coeff n * x ^ n) sums exp (- (x\<^sup>2 / 2))"
proof -
  let ?f = "\<lambda>m. (- (x\<^sup>2 / 2)) ^ m / fact m"
  have "(\<lambda>n. if even n then ?f (n div 2) else (\<lambda>_. 0) ((n - 1) div 2)) sums (0 + exp (- (x\<^sup>2 / 2)))"
    by (rule sums_if [OF sums_zero gauss_term_sums])
  moreover have "(\<lambda>n. if even n then ?f (n div 2) else 0) = (\<lambda>n. diffs gauss_coeff n * x ^ n)"
  proof
    fix n :: nat
    show "(if even n then ?f (n div 2) else 0) = diffs gauss_coeff n * x ^ n"
    proof (cases "even n")
      case True
      then obtain m where n: "n = 2 * m" by (auto elim: evenE)
      have "(- (x\<^sup>2 / 2)) ^ m = (- 1) ^ m * (x\<^sup>2 / 2) ^ m"
        by (rule power_minus)
      then show ?thesis
        by (simp add: n gauss_coeff_diffs power_mult power_divide)
    next
      case False
      then show ?thesis by (simp add: gauss_coeff_diffs)
    qed
  qed
  ultimately show ?thesis by simp
qed

lemma DERIV_gauss_area: "DERIV gauss_area x :> exp (- (x\<^sup>2 / 2))"
proof -
  have "((\<lambda>x. \<Sum>n. gauss_coeff n * x ^ n) has_field_derivative (\<Sum>n. diffs gauss_coeff n * x ^ n)) (at x)"
    by (rule termdiffs_strong_converges_everywhere) (rule gauss_coeff_summable)
  moreover have "(\<Sum>n. diffs gauss_coeff n * x ^ n) = exp (- (x\<^sup>2 / 2))"
    using gauss_density_sums [of x] by (simp add: sums_iff)
  moreover have "(\<lambda>x. \<Sum>n. gauss_coeff n * x ^ n) = gauss_area"
    by (simp add: gauss_area_def fun_eq_iff)
  ultimately show ?thesis by simp
qed

lemma gauss_area_0: "gauss_area 0 = 0"
proof -
  have "(\<lambda>n. gauss_coeff n * 0 ^ n) = (\<lambda>n. 0)"
    by (auto simp: fun_eq_iff gauss_coeff_def power_0_left)
  then show ?thesis by (simp add: gauss_area_def)
qed

lemma gauss_area_strict_mono: "x < y \<Longrightarrow> gauss_area x < gauss_area y"
  by (rule DERIV_pos_imp_increasing [of x y gauss_area])
     (auto intro!: exI [of _ "exp (- (t\<^sup>2 / 2))" for t] DERIV_gauss_area)

lemma gauss_area_isCont: "isCont gauss_area x"
  using DERIV_gauss_area by (rule DERIV_isCont)

lemma gauss_area_odd: "gauss_area (- x) = - gauss_area x"
proof -
  have "DERIV (\<lambda>t. gauss_area t + gauss_area (- t)) t :> 0" for t
    by (auto intro!: derivative_eq_intros DERIV_gauss_area DERIV_chain2 [OF DERIV_gauss_area])
  then have "(\<lambda>t. gauss_area t + gauss_area (- t)) x = (\<lambda>t. gauss_area t + gauss_area (- t)) 0"
    by (rule DERIV_isconst_all [rule_format]) 
  then show ?thesis by (simp add: gauss_area_0)
qed

lemma gauss_density_le: "exp (- (t\<^sup>2 / 2)) \<le> exp (1 / 2) * exp (- t)" for t :: real
proof -
  have "0 \<le> (t - 1)\<^sup>2" by simp
  then have "- (t\<^sup>2 / 2) \<le> 1 / 2 + - t" by (simp add: power2_eq_square algebra_simps)
  then have "exp (- (t\<^sup>2 / 2)) \<le> exp (1 / 2 + - t)" by (simp only: exp_le_cancel_iff)
  then show ?thesis by (simp only: exp_add)
qed

lemma gauss_area_le_exp: 
  assumes "0 \<le> x" shows "gauss_area x \<le> exp (1 / 2) * (1 - exp (- x))"
proof -
  let ?D = "\<lambda>t. exp (1 / 2) * (1 - exp (- t)) - gauss_area t"
  have "?D 0 \<le> ?D x"
  proof (rule DERIV_nonneg_imp_nondecreasing [OF assms])
    fix t :: real
    have "DERIV ?D t :> exp (1 / 2) * exp (- t) - exp (- (t\<^sup>2 / 2))"
      by (auto intro!: derivative_eq_intros DERIV_gauss_area)
    then show "\<exists>y. DERIV ?D t :> y \<and> 0 \<le> y"
      using gauss_density_le [of t] by (intro exI [of _ "exp (1 / 2) * exp (- t) - exp (- (t\<^sup>2 / 2))"]) simp
  qed
  then show ?thesis by (simp add: gauss_area_0)
qed

lemma gauss_area_bounded: "gauss_area x \<le> exp (1 / 2)"
proof (cases "0 \<le> x")
  case True
  have "exp (1 / 2) * (1 - exp (- x)) \<le> exp (1 / 2) * 1"
    by (rule mult_left_mono) simp_all
  then have "exp (1 / 2) * (1 - exp (- x)) \<le> exp (1 / 2)"
    by (simp only: mult_1_right)
  with gauss_area_le_exp [OF True] show ?thesis by (rule order_trans)
next
  case False
  then have "gauss_area x < gauss_area 0" by (intro gauss_area_strict_mono) simp
  then show ?thesis by (simp add: gauss_area_0 less_le_trans [OF _ exp_ge_zero] less_imp_le)
qed

lemma gauss_area_bdd_above: "bdd_above (range gauss_area)"
  by (rule bdd_aboveI [of _ "exp (1 / 2)"]) (auto simp: gauss_area_bounded)

lemma gauss_area_less_mass: "gauss_area x < gauss_mass"
proof -
  have "gauss_area x < gauss_area (x + 1)" by (rule gauss_area_strict_mono) simp
  also have "\<dots> \<le> gauss_mass"
    unfolding gauss_mass_def by (rule cSup_upper [OF _ gauss_area_bdd_above]) simp
  finally show ?thesis .
qed

lemma gauss_mass_pos: "0 < gauss_mass"
  using gauss_area_less_mass [of 0] by (simp add: gauss_area_0)

lemma gauss_area_approaches_mass:
  assumes "y < gauss_mass" shows "\<exists>x. y < gauss_area x"
proof -
  have "\<exists>v\<in>range gauss_area. y < v"
    using assms unfolding gauss_mass_def
    by (subst (asm) less_cSup_iff [OF _ gauss_area_bdd_above]) auto
  then show ?thesis by auto
qed

lemma std_normal_cdf_strict_mono: "x < y \<Longrightarrow> std_normal_cdf x < std_normal_cdf y"
  unfolding std_normal_cdf_def
  using gauss_mass_pos by (simp add: gauss_area_strict_mono divide_strict_right_mono)

lemma std_normal_cdf_less_iff: "std_normal_cdf x < std_normal_cdf y \<longleftrightarrow> x < y"
  using std_normal_cdf_strict_mono [of x y] std_normal_cdf_strict_mono [of y x]
  by (cases x y rule: linorder_cases) auto

lemma std_normal_cdf_inj: "std_normal_cdf x = std_normal_cdf y \<longleftrightarrow> x = y"
  using std_normal_cdf_strict_mono [of x y] std_normal_cdf_strict_mono [of y x]
  by (cases x y rule: linorder_cases) auto

lemma std_normal_cdf_0: "std_normal_cdf 0 = 1 / 2"
  by (simp add: std_normal_cdf_def gauss_area_0)

lemma std_normal_cdf_minus: "std_normal_cdf (- x) = 1 - std_normal_cdf x"
  by (simp add: std_normal_cdf_def gauss_area_odd)

lemma std_normal_cdf_less_1: "std_normal_cdf x < 1"
proof -
  have "gauss_area x / (2 * gauss_mass) < 1 / 2"
    using gauss_area_less_mass [of x] gauss_mass_pos by (simp add: field_simps)
  then show ?thesis by (simp add: std_normal_cdf_def)
qed

lemma std_normal_cdf_pos: "0 < std_normal_cdf x"
  using std_normal_cdf_less_1 [of "- x"] by (simp add: std_normal_cdf_minus)

lemma std_normal_cdf_upper_onto:
  assumes "1 / 2 \<le> q" "q < 1"
  shows "\<exists>x. std_normal_cdf x = q"
proof -
  let ?y = "(2 * q - 1) * gauss_mass"
  have y0: "0 \<le> ?y" using assms gauss_mass_pos by simp
  have "?y < 1 * gauss_mass"
    using assms gauss_mass_pos by (intro mult_strict_right_mono) simp_all
  then have "?y < gauss_mass" by simp
  then obtain b where b: "?y < gauss_area b"
    using gauss_area_approaches_mass by blast
  have "0 \<le> b"
  proof (rule ccontr)
    assume "\<not> 0 \<le> b"
    then have "gauss_area b < gauss_area 0" by (intro gauss_area_strict_mono) simp
    with b y0 show False by (simp add: gauss_area_0)
  qed
  have "\<exists>x. 0 \<le> x \<and> x \<le> b \<and> gauss_area x = ?y"
    using y0 b \<open>0 \<le> b\<close> by (intro IVT) (simp_all add: gauss_area_0 gauss_area_isCont)
  then obtain x where "gauss_area x = ?y" by blast
  then have "std_normal_cdf x = q"
    using gauss_mass_pos by (simp add: std_normal_cdf_def field_simps)
  then show ?thesis ..
qed

lemma std_normal_cdf_onto:
  assumes "0 < q" "q < 1"
  shows "\<exists>x. std_normal_cdf x = q"
proof (cases "1 / 2 \<le> q")
  case True
  with assms show ?thesis by (intro std_normal_cdf_upper_onto)
next
  case False
  with assms have "\<exists>x. std_normal_cdf x = 1 - q"
    by (intro std_normal_cdf_upper_onto) simp_all
  then obtain x where "std_normal_cdf x = 1 - q" ..
  then have "std_normal_cdf (- x) = q" by (simp add: std_normal_cdf_minus)
  then show ?thesis ..
qed

lemma std_normal_quantile_cdf: "std_normal_quantile (std_normal_cdf x) = x"
  unfolding std_normal_quantile_def by (rule the_equality) (simp_all add: std_normal_cdf_inj)

lemma std_normal_cdf_quantile:
  assumes "0 < q" "q < 1"
  shows "std_normal_cdf (std_normal_quantile q) = q"
proof -
  from std_normal_cdf_onto [OF assms] obtain x where "std_normal_cdf x = q" ..
  then show ?thesis using std_normal_quantile_cdf [of x] by simp
qed

lemma std_normal_quantile_strict_mono:
  assumes "0 < p" "p < q" "q < 1"
  shows "std_normal_quantile p < std_normal_quantile q"
proof -
  have "std_normal_cdf (std_normal_quantile p) < std_normal_cdf (std_normal_quantile q)"
    using assms by (simp add: std_normal_cdf_quantile)
  then show ?thesis by (simp only: std_normal_cdf_less_iff)
qed

lemma std_normal_quantile_half: "std_normal_quantile (1 / 2) = 0"
  using std_normal_quantile_cdf [of 0] by (simp add: std_normal_cdf_0)

lemma std_normal_quantile_pos:
  assumes "1 / 2 < q" "q < 1"
  shows "0 < std_normal_quantile q"
  using std_normal_quantile_strict_mono [of "1 / 2" q] assms
  by (simp add: std_normal_quantile_half)

lemma DERIV_std_normal_cdf:
  "DERIV std_normal_cdf x :> exp (- (x\<^sup>2 / 2)) / (2 * gauss_mass)"
  unfolding std_normal_cdf_def using gauss_mass_pos
  by (auto intro!: derivative_eq_intros DERIV_gauss_area)

section \<open>Numerical bounds\<close>

lemma DERIV_gauss_poly:
  "DERIV (gauss_poly N) t :> (\<Sum>m<N. (- (t\<^sup>2 / 2)) ^ m / fact m)"
proof -
  have tm: "DERIV (\<lambda>x. (- 1) ^ m * x ^ (2 * m + 1) / (2 ^ m * fact m * real (2 * m + 1))) t
      :> (- (t\<^sup>2 / 2)) ^ m / fact m" for m :: nat
  proof -
    have "(- (t\<^sup>2 / 2)) ^ m = (- 1) ^ m * (t\<^sup>2 / 2) ^ m" by (rule power_minus)
    then have eq: "(- (t\<^sup>2 / 2)) ^ m / fact m = (- 1) ^ m * t ^ (2 * m) / (2 ^ m * fact m)"
      by (simp add: power_divide power_mult)
    have "DERIV (\<lambda>x. x ^ (2 * m + 1)) t :> real (2 * m + 1) * t ^ (2 * m)"
      using DERIV_pow [of "2 * m + 1" t] by simp
    then have "DERIV (\<lambda>x. ((- 1) ^ m / (2 ^ m * fact m * real (2 * m + 1))) * x ^ (2 * m + 1)) t
        :> ((- 1) ^ m / (2 ^ m * fact m * real (2 * m + 1))) * (real (2 * m + 1) * t ^ (2 * m))"
      by (rule DERIV_cmult)
    moreover have "((- 1) ^ m / (2 ^ m * fact m * real (2 * m + 1))) * (real (2 * m + 1) * t ^ (2 * m))
        = (- 1) ^ m * t ^ (2 * m) / (2 ^ m * fact m)"
      by simp
    moreover have "(\<lambda>x. ((- 1) ^ m / (2 ^ m * fact m * real (2 * m + 1))) * x ^ (2 * m + 1))
        = (\<lambda>x. (- 1) ^ m * x ^ (2 * m + 1) / (2 ^ m * fact m * real (2 * m + 1)))"
      by (simp add: fun_eq_iff)
    ultimately show ?thesis
      unfolding eq by simp
  qed
  have "DERIV (\<lambda>x. \<Sum>m<N. (- 1) ^ m * x ^ (2 * m + 1) / (2 ^ m * fact m * real (2 * m + 1))) t
      :> (\<Sum>m<N. (- (t\<^sup>2 / 2)) ^ m / fact m)"
    by (rule DERIV_sum) (rule tm)
  moreover have "(\<lambda>x. \<Sum>m<N. (- 1) ^ m * x ^ (2 * m + 1) / (2 ^ m * fact m * real (2 * m + 1)))
      = gauss_poly N"
    by (simp add: gauss_poly_def fun_eq_iff)
  ultimately show ?thesis by simp
qed

lemma exp_neg_taylor_even:
  fixes u :: real
  assumes "u \<le> 0" "even N"
  shows "(\<Sum>m<N. u ^ m / fact m) \<le> exp u"
proof -
  obtain s where s: "exp u = (\<Sum>m<N. u ^ m / fact m) + exp s / fact N * u ^ N"
    using Maclaurin_exp_le [of u N] by blast
  have "0 \<le> u ^ N" using assms(2) by (rule zero_le_even_power)
  then have "0 \<le> exp s / fact N * u ^ N" by (intro mult_nonneg_nonneg) simp_all
  with s show ?thesis by linarith
qed

lemma exp_neg_taylor_odd:
  fixes u :: real
  assumes "u \<le> 0" "odd N"
  shows "exp u \<le> (\<Sum>m<N. u ^ m / fact m)"
proof -
  obtain s where s: "exp u = (\<Sum>m<N. u ^ m / fact m) + exp s / fact N * u ^ N"
    using Maclaurin_exp_le [of u N] by blast
  have "0 < N" using assms(2) by (rule odd_pos)
  then have "u ^ N \<le> 0" using assms by (simp add: power_le_zero_eq)
  then have "exp s / fact N * u ^ N \<le> 0" by (intro mult_nonneg_nonpos) simp_all
  with s show ?thesis by linarith
qed

lemma gauss_poly_0: "gauss_poly N 0 = 0"
  by (simp add: gauss_poly_def)

lemma gauss_area_ge_poly:
  assumes "0 \<le> x" "even N"
  shows "gauss_poly N x \<le> gauss_area x"
proof -
  let ?D = "\<lambda>t. gauss_area t - gauss_poly N t"
  have "?D 0 \<le> ?D x"
  proof (rule DERIV_nonneg_imp_nondecreasing [OF assms(1)])
    fix t :: real
    have "DERIV ?D t :> exp (- (t\<^sup>2 / 2)) - (\<Sum>m<N. (- (t\<^sup>2 / 2)) ^ m / fact m)"
      by (intro DERIV_diff DERIV_gauss_area DERIV_gauss_poly)
    moreover have "0 \<le> exp (- (t\<^sup>2 / 2)) - (\<Sum>m<N. (- (t\<^sup>2 / 2)) ^ m / fact m)"
      using exp_neg_taylor_even [of "- (t\<^sup>2 / 2)" N] assms(2) by simp
    ultimately show "\<exists>y. DERIV ?D t :> y \<and> 0 \<le> y" by blast
  qed
  then show ?thesis by (simp add: gauss_area_0 gauss_poly_0)
qed

lemma gauss_area_le_poly:
  assumes "0 \<le> x" "odd N"
  shows "gauss_area x \<le> gauss_poly N x"
proof -
  let ?D = "\<lambda>t. gauss_poly N t - gauss_area t"
  have "?D 0 \<le> ?D x"
  proof (rule DERIV_nonneg_imp_nondecreasing [OF assms(1)])
    fix t :: real
    have "DERIV ?D t :> (\<Sum>m<N. (- (t\<^sup>2 / 2)) ^ m / fact m) - exp (- (t\<^sup>2 / 2))"
      by (intro DERIV_diff DERIV_gauss_area DERIV_gauss_poly)
    moreover have "0 \<le> (\<Sum>m<N. (- (t\<^sup>2 / 2)) ^ m / fact m) - exp (- (t\<^sup>2 / 2))"
      using exp_neg_taylor_odd [of "- (t\<^sup>2 / 2)" N] assms(2) by simp
    ultimately show "\<exists>y. DERIV ?D t :> y \<and> 0 \<le> y" by blast
  qed
  then show ?thesis by (simp add: gauss_area_0 gauss_poly_0)
qed

lemma gauss_area_tail:
  assumes "0 < a" "a \<le> x"
  shows "gauss_area x \<le> gauss_area a + exp (- (a\<^sup>2 / 2)) / a"
proof -
  let ?D = "\<lambda>t. - exp (- (t\<^sup>2 / 2)) / a - gauss_area t"
  have "?D a \<le> ?D x"
  proof (rule DERIV_nonneg_imp_nondecreasing [OF assms(2)])
    fix t :: real
    assume t: "a \<le> t" "t \<le> x"
    have "DERIV ?D t :> t * exp (- (t\<^sup>2 / 2)) / a - exp (- (t\<^sup>2 / 2))"
      using assms(1) by (auto intro!: derivative_eq_intros DERIV_gauss_area simp: field_simps)
    moreover have "0 \<le> t * exp (- (t\<^sup>2 / 2)) / a - exp (- (t\<^sup>2 / 2))"
    proof -
      have "1 \<le> t / a" using t assms(1) by simp
      then have "1 * exp (- (t\<^sup>2 / 2)) \<le> t / a * exp (- (t\<^sup>2 / 2))"
        by (intro mult_right_mono) simp_all
      then show ?thesis by (simp add: field_simps)
    qed
    ultimately show "\<exists>y. DERIV ?D t :> y \<and> 0 \<le> y" by blast
  qed
  then have "gauss_area x \<le> gauss_area a + exp (- (a\<^sup>2 / 2)) / a - exp (- (x\<^sup>2 / 2)) / a"
    by (simp add: field_simps)
  moreover have "0 \<le> exp (- (x\<^sup>2 / 2)) / a" using assms(1) by simp
  ultimately show ?thesis by linarith
qed

lemma gauss_mass_le_tail:
  assumes "0 < a"
  shows "gauss_mass \<le> gauss_area a + exp (- (a\<^sup>2 / 2)) / a"
  unfolding gauss_mass_def
proof (rule cSup_least)
  show "range gauss_area \<noteq> {}" by simp
  fix y assume "y \<in> range gauss_area"
  then obtain x where y: "y = gauss_area x" by auto
  show "y \<le> gauss_area a + exp (- (a\<^sup>2 / 2)) / a"
  proof (cases "a \<le> x")
    case True
    then show ?thesis unfolding y by (rule gauss_area_tail [OF assms])
  next
    case False
    then have "gauss_area x < gauss_area a" by (intro gauss_area_strict_mono) simp
    moreover have "0 \<le> exp (- (a\<^sup>2 / 2)) / a" using assms by simp
    ultimately show ?thesis unfolding y by linarith
  qed
qed

lemma gauss_poly_Suc:
  "gauss_poly (Suc N) x =
     gauss_poly N x + (- 1) ^ N * x ^ (2 * N + 1) / (2 ^ N * fact N * real (2 * N + 1))"
  by (simp add: gauss_poly_def)

lemma gauss_poly_numeral:
  "gauss_poly (numeral k) x =
     gauss_poly (pred_numeral k) x
     + (- 1) ^ pred_numeral k * x ^ (2 * pred_numeral k + 1)
       / (2 ^ pred_numeral k * fact (pred_numeral k) * real (2 * pred_numeral k + 1))"
  by (simp only: numeral_eq_Suc gauss_poly_Suc)

lemma gauss_poly_zero: "gauss_poly 0 x = 0"
  by (simp add: gauss_poly_def)

lemma gauss_poly_one: "gauss_poly (Suc 0) x = x"
  by (simp add: gauss_poly_def)

lemmas gauss_poly_eval = gauss_poly_numeral gauss_poly_one gauss_poly_zero fact_numeral power_divide

lemma exp_minus_half_le: "exp (- (1 / 2)) \<le> (233 / 384 :: real)"
proof -
  have "exp (- (1 / 2)) \<le> (\<Sum>m<5. (- (1 / 2 :: real)) ^ m / fact m)"
    by (rule exp_neg_taylor_odd) simp_all
  also have "\<dots> = 233 / 384"
    by (simp add: eval_nat_numeral)
  finally show ?thesis .
qed

lemma gauss_density_at_5: "exp (- (5\<^sup>2 / 2)) \<le> ((233 / 384) ^ 25 :: real)"
proof -
  have "exp (- (5\<^sup>2 / 2)) = exp (of_nat 25 * (- (1 / 2 :: real)))" by simp
  also have "\<dots> = exp (- (1 / 2)) ^ 25" by (rule exp_of_nat_mult)
  also have "\<dots> \<le> (233 / 384) ^ 25"
    by (rule power_mono [OF exp_minus_half_le]) simp
  finally show ?thesis .
qed

lemma gauss_mass_lower: "1253305 / 1000000 \<le> gauss_mass"
proof -
  have "1253305 / 1000000 \<le> gauss_poly 40 5"
    by (simp add: gauss_poly_eval)
  also have "\<dots> \<le> gauss_area 5" by (rule gauss_area_ge_poly) simp_all
  also have "\<dots> \<le> gauss_mass" by (rule less_imp_le [OF gauss_area_less_mass])
  finally show ?thesis .
qed

lemma gauss_mass_upper: "gauss_mass \<le> 1253316 / 1000000"
proof -
  have "gauss_mass \<le> gauss_area 5 + exp (- (5\<^sup>2 / 2)) / 5"
    by (rule gauss_mass_le_tail) simp
  also have "\<dots> \<le> gauss_poly 41 5 + (233 / 384) ^ 25 / 5"
    by (intro add_mono divide_right_mono gauss_area_le_poly gauss_density_at_5) simp_all
  also have "\<dots> \<le> 1253316 / 1000000"
    by (simp add: gauss_poly_eval)
  finally show ?thesis .
qed

lemma std_normal_quantile_le:
  assumes "0 < q" "q < 1" "q \<le> std_normal_cdf x"
  shows "std_normal_quantile q \<le> x"
proof (rule ccontr)
  assume "\<not> std_normal_quantile q \<le> x"
  then have "std_normal_cdf x < std_normal_cdf (std_normal_quantile q)"
    by (simp add: std_normal_cdf_less_iff)
  with assms show False by (simp add: std_normal_cdf_quantile)
qed

lemma std_normal_quantile_ge:
  assumes "0 < q" "q < 1" "std_normal_cdf x \<le> q"
  shows "x \<le> std_normal_quantile q"
proof (rule ccontr)
  assume "\<not> x \<le> std_normal_quantile q"
  then have "std_normal_cdf (std_normal_quantile q) < std_normal_cdf x"
    by (simp add: std_normal_cdf_less_iff)
  with assms show False by (simp add: std_normal_cdf_quantile)
qed

lemma gauss_density_at_10: "exp (- (10\<^sup>2 / 2)) \<le> ((233 / 384) ^ 100 :: real)"
proof -
  have "exp (- (10\<^sup>2 / 2)) = exp (of_nat 100 * (- (1 / 2 :: real)))" by simp
  also have "\<dots> = exp (- (1 / 2)) ^ 100" by (rule exp_of_nat_mult)
  also have "\<dots> \<le> (233 / 384) ^ 100"
    by (rule power_mono [OF exp_minus_half_le]) simp
  finally show ?thesis .
qed

lemma std_normal_cdf_at_10: "1 - 1 / 2 ^ 53 \<le> std_normal_cdf 10"
proof -
  have "gauss_mass - gauss_area 10 \<le> exp (- (10\<^sup>2 / 2)) / 10"
    using gauss_mass_le_tail [of 10] by simp
  also have "\<dots> \<le> (233 / 384) ^ 100 / 10"
    by (intro divide_right_mono gauss_density_at_10) simp
  also have "\<dots> \<le> 2 / 2 ^ 53 * (1253305 / 1000000)"
    by (simp add: power_divide)
  also have "\<dots> \<le> 2 / 2 ^ 53 * gauss_mass"
    using gauss_mass_lower by simp
  finally have "gauss_mass - 2 / 2 ^ 53 * gauss_mass \<le> gauss_area 10" by simp
  then have "(1 - 2 / 2 ^ 53) / 2 \<le> gauss_area 10 / (2 * gauss_mass)"
    using gauss_mass_pos by (simp add: field_simps)
  then show ?thesis by (simp add: std_normal_cdf_def)
qed

lemma std_normal_quantile_bound:
  assumes "1 / 2 \<le> q" "q \<le> 1 - 1 / 2 ^ 53"
  shows "0 \<le> std_normal_quantile q" "std_normal_quantile q \<le> 10"
proof -
  have q: "0 < q" "q < 1" using assms by simp_all
  show "0 \<le> std_normal_quantile q"
    using q assms(1) by (intro std_normal_quantile_ge) (simp_all add: std_normal_cdf_0)
  have "q \<le> std_normal_cdf 10" using assms(2) std_normal_cdf_at_10 by linarith
  then show "std_normal_quantile q \<le> 10" by (rule std_normal_quantile_le [OF q])
qed

lemma std_normal_cdf_above_975:
  "975 / 1000 + 1 / 10 ^ 9 \<le> std_normal_cdf (195999 / 100000)"
proof -
  have "(95 / 100 + 2 / 10 ^ 9) * gauss_mass \<le> (95 / 100 + 2 / 10 ^ 9) * (1253316 / 1000000)"
    using gauss_mass_upper by simp
  also have "\<dots> \<le> gauss_poly 12 (195999 / 100000)"
    by (simp add: gauss_poly_eval)
  also have "\<dots> \<le> gauss_area (195999 / 100000)"
    by (rule gauss_area_ge_poly) simp_all
  finally have "(95 / 100 + 2 / 10 ^ 9) * gauss_mass \<le> gauss_area (195999 / 100000)" .
  then have "(95 / 100 + 2 / 10 ^ 9) / 2 \<le> gauss_area (195999 / 100000) / (2 * gauss_mass)"
    using gauss_mass_pos by (simp add: field_simps)
  then show ?thesis by (simp add: std_normal_cdf_def)
qed

lemma std_normal_cdf_below_975:
  "std_normal_cdf (19598 / 10000) \<le> 975 / 1000 - 1 / 10 ^ 9"
proof -
  have "gauss_area (19598 / 10000) \<le> gauss_poly 11 (19598 / 10000)"
    by (rule gauss_area_le_poly) simp_all
  also have "\<dots> \<le> (95 / 100 - 2 / 10 ^ 9) * (1253305 / 1000000)"
    by (simp add: gauss_poly_eval)
  also have "\<dots> \<le> (95 / 100 - 2 / 10 ^ 9) * gauss_mass"
    using gauss_mass_lower by simp
  finally have "gauss_area (19598 / 10000) \<le> (95 / 100 - 2 / 10 ^ 9) * gauss_mass" .
  then have "gauss_area (19598 / 10000) / (2 * gauss_mass) \<le> (95 / 100 - 2 / 10 ^ 9) / 2"
    using gauss_mass_pos by (simp add: field_simps)
  then show ?thesis by (simp add: std_normal_cdf_def)
qed

lemma std_normal_quantile_near_975:
  assumes "\<bar>q - 975 / 1000\<bar> \<le> 1 / 10 ^ 9"
  shows "19598 / 10000 \<le> std_normal_quantile q" "std_normal_quantile q \<le> 195999 / 100000"
proof -
  have e: "(1::real) / 10 ^ 9 = 1 / 1000000000" by simp
  have b: "975 / 1000 - 1 / 1000000000 \<le> q" "q \<le> 975 / 1000 + 1 / 1000000000"
    using assms unfolding e by linarith+
  have q: "0 < q" "q < 1" using b by linarith+
  have "std_normal_cdf (19598 / 10000) \<le> q"
    using std_normal_cdf_below_975 b(1) unfolding e by linarith
  then show "19598 / 10000 \<le> std_normal_quantile q" by (rule std_normal_quantile_ge [OF q])
  have "q \<le> std_normal_cdf (195999 / 100000)"
    using std_normal_cdf_above_975 b(2) unfolding e by linarith
  then show "std_normal_quantile q \<le> 195999 / 100000" by (rule std_normal_quantile_le [OF q])
qed

lemma std_normal_cdf_tail_5:
  assumes "5 \<le> x"
  shows "1 - 1 / 1000000 \<le> std_normal_cdf x"
proof -
  have "gauss_mass - gauss_area 5 \<le> exp (- (5\<^sup>2 / 2)) / 5"
    using gauss_mass_le_tail [of 5] by simp
  also have "\<dots> \<le> (233 / 384) ^ 25 / 5"
    by (intro divide_right_mono gauss_density_at_5) simp
  also have "\<dots> \<le> 2 / 1000000 * (1253305 / 1000000)"
    by (simp add: power_divide)
  also have "\<dots> \<le> 2 / 1000000 * gauss_mass"
    using gauss_mass_lower by simp
  finally have "gauss_mass - 2 / 1000000 * gauss_mass \<le> gauss_area 5" by simp
  then have "(1 - 2 / 1000000) / 2 \<le> gauss_area 5 / (2 * gauss_mass)"
    using gauss_mass_pos by (simp add: field_simps)
  then have "1 - 1 / 1000000 \<le> std_normal_cdf 5" by (simp add: std_normal_cdf_def)
  moreover have "std_normal_cdf 5 \<le> std_normal_cdf x"
    using assms std_normal_cdf_strict_mono [of 5 x] by (cases "x = 5") simp_all
  ultimately show ?thesis by linarith
qed


section \<open>Properties of rounding\<close>

lemma rne_ge_floor: "\<lfloor>y\<rfloor> \<le> rne y"
  by (simp add: rne_def Let_def)

lemma rne_le_floor: "rne y \<le> \<lfloor>y\<rfloor> + 1"
  by (simp add: rne_def Let_def)

lemma rne_of_int: "rne (of_int m) = m"
  by (simp add: rne_def)

lemma rne_mono:
  assumes "x \<le> y" shows "rne x \<le> rne y"
proof (cases "\<lfloor>x\<rfloor> = \<lfloor>y\<rfloor>")
  case True
  with assms show ?thesis by (auto simp: rne_def Let_def)
next
  case False
  with assms have "\<lfloor>x\<rfloor> + 1 \<le> \<lfloor>y\<rfloor>" using floor_mono [of x y] by linarith
  with rne_le_floor [of x] rne_ge_floor [of y] show ?thesis by linarith
qed

lemma rne_error: "\<bar>of_int (rne y) - y\<bar> \<le> 1 / 2"
proof -
  have "of_int \<lfloor>y\<rfloor> \<le> y" "y < of_int \<lfloor>y\<rfloor> + 1" by linarith+
  then show ?thesis by (auto simp: rne_def Let_def)
qed

lemma rne_le_int: "y \<le> of_int m \<Longrightarrow> rne y \<le> m"
  using rne_mono [of y "of_int m"] by (simp add: rne_of_int)

lemma rne_ge_int: "of_int m \<le> y \<Longrightarrow> m \<le> rne y"
  using rne_mono [of "of_int m" y] by (simp add: rne_of_int)

lemma rne_below_half:
  assumes "y < of_int m + 1 / 2" shows "rne y \<le> m"
proof -
  have "\<lfloor>y\<rfloor> \<le> m" using assms by (simp add: floor_le_iff)
  show ?thesis
  proof (cases "\<lfloor>y\<rfloor> = m")
    case True
    with assms show ?thesis by (simp add: rne_def Let_def)
  next
    case False
    with \<open>\<lfloor>y\<rfloor> \<le> m\<close> rne_le_floor [of y] show ?thesis by linarith
  qed
qed

lemma rne_above_half_odd:
  assumes "odd m" "of_int m + 1 / 2 \<le> y" shows "m + 1 \<le> rne y"
proof -
  have "m \<le> \<lfloor>y\<rfloor>" using assms(2) by (simp add: le_floor_iff)
  show ?thesis
  proof (cases "\<lfloor>y\<rfloor> = m")
    case True
    with assms show ?thesis by (auto simp: rne_def Let_def)
  next
    case False
    with \<open>m \<le> \<lfloor>y\<rfloor>\<close> rne_ge_floor [of y] show ?thesis by linarith
  qed
qed

lemma rne_minus: "rne (- y) = - rne y"
proof (cases "y = of_int \<lfloor>y\<rfloor>")
  case True
  then obtain m where "y = of_int m" ..
  then have "- y = of_int (- m)" by simp
  then show ?thesis using \<open>y = of_int m\<close> by (simp only: rne_of_int)
next
  case False
  define f where "f = \<lfloor>y\<rfloor>"
  have fy: "of_int f < y" "y < of_int f + 1" using False unfolding f_def by linarith+
  then have "\<lfloor>- y\<rfloor> = - f - 1" by (intro floor_unique) simp_all
  with fy show ?thesis
    unfolding rne_def Let_def f_def [symmetric] by auto
qed

lemma two_powi_pos: "0 < (2::real) powi e"
  by simp

lemma two_powi_mono: "i \<le> j \<Longrightarrow> (2::real) powi i \<le> 2 powi j"
  by (rule power_int_increasing) simp_all

lemma two_powi_less_cancel: "(2::real) powi i < 2 powi j \<Longrightarrow> i < j"
proof (rule ccontr)
  assume a: "2 powi i < (2::real) powi j" "\<not> i < j"
  then have "(2::real) powi j \<le> 2 powi i" by (intro two_powi_mono) simp
  with a show False by simp
qed

lemma binade:
  assumes "x \<noteq> 0"
  shows "2 powi \<lfloor>log 2 \<bar>x\<bar>\<rfloor> \<le> \<bar>x\<bar>" and "\<bar>x\<bar> < 2 powi (\<lfloor>log 2 \<bar>x\<bar>\<rfloor> + 1)"
proof -
  have x: "0 < \<bar>x\<bar>" using assms by simp
  define E where "E = \<lfloor>log 2 \<bar>x\<bar>\<rfloor>"
  have "2 powr (real_of_int E) \<le> \<bar>x\<bar> \<and> \<bar>x\<bar> < 2 powr (real_of_int E + 1)"
    using floor_log_eq_powr_iff [OF x, of 2 E] by (simp add: E_def)
  moreover have "real_of_int E + 1 = real_of_int (E + 1)" by simp
  ultimately have "2 powr (real_of_int E) \<le> \<bar>x\<bar> \<and> \<bar>x\<bar> < 2 powr (real_of_int (E + 1))"
    by (simp only:)
  then have "2 powi E \<le> \<bar>x\<bar> \<and> \<bar>x\<bar> < 2 powi (E + 1)"
    by (simp only: powr_real_of_int' [of 2, simplified])
  then show "2 powi \<lfloor>log 2 \<bar>x\<bar>\<rfloor> \<le> \<bar>x\<bar>" and "\<bar>x\<bar> < 2 powi (\<lfloor>log 2 \<bar>x\<bar>\<rfloor> + 1)"
    unfolding E_def by blast+
qed

lemma floor_log2_less:
  assumes "x \<noteq> 0" "\<bar>x\<bar> < 2 powi j"
  shows "\<lfloor>log 2 \<bar>x\<bar>\<rfloor> < j"
  using binade(1) [OF assms(1)] assms(2) by (intro two_powi_less_cancel) linarith

lemma floor_log2_ge:
  assumes "x \<noteq> 0" "2 powi j \<le> \<bar>x\<bar>"
  shows "j \<le> \<lfloor>log 2 \<bar>x\<bar>\<rfloor>"
proof -
  have "2 powi j < (2::real) powi (\<lfloor>log 2 \<bar>x\<bar>\<rfloor> + 1)"
    using binade(2) [OF assms(1)] assms(2) by linarith
  then have "j < \<lfloor>log 2 \<bar>x\<bar>\<rfloor> + 1" by (rule two_powi_less_cancel)
  then show ?thesis by simp
qed

lemma expo_ge_min: "- 1074 \<le> expo x"
  by (simp add: expo_def)

lemma expo_le:
  assumes "x \<noteq> 0" "\<bar>x\<bar> < 2 powi (j + 53)" "- 1074 \<le> j"
  shows "expo x \<le> j"
  using floor_log2_less [OF assms(1,2)] assms(3) by (simp add: expo_def)

lemma expo_ge:
  assumes "x \<noteq> 0" "2 powi (j + 52) \<le> \<bar>x\<bar>"
  shows "j \<le> expo x"
  using floor_log2_ge [OF assms] by (simp add: expo_def)

lemma expo_eq:
  assumes "2 powi (j + 52) \<le> \<bar>x\<bar>" "\<bar>x\<bar> < 2 powi (j + 53)" "- 1074 \<le> j"
  shows "expo x = j"
proof -
  have "0 < \<bar>x\<bar>" using two_powi_pos [of "j + 52"] assms(1) by (rule less_le_trans)
  then have "x \<noteq> 0" by simp
  then show ?thesis using expo_le [of x j] expo_ge [of x j] assms by simp
qed

lemma expo_minus: "expo (- x) = expo x"
  by (simp add: expo_def)

lemma expo_mono:
  assumes "x \<noteq> 0" "\<bar>x\<bar> \<le> \<bar>y\<bar>"
  shows "expo x \<le> expo y"
proof -
  have "log 2 \<bar>x\<bar> \<le> log 2 \<bar>y\<bar>" using assms by simp
  then have "\<lfloor>log 2 \<bar>x\<bar>\<rfloor> \<le> \<lfloor>log 2 \<bar>y\<bar>\<rfloor>" by (rule floor_mono)
  then show ?thesis by (simp add: expo_def)
qed

lemma rnd_0: "rnd 0 = 0"
  by (simp add: rnd_def)

lemma rnd_minus: "rnd (- x) = - rnd x"
  by (simp add: rnd_def expo_minus rne_minus)

lemma grid_coarser:
  assumes "e \<le> j"
  shows "of_int m * (2::real) powi j = of_int (m * 2 ^ nat (j - e)) * 2 powi e"
proof -
  have "(2::real) powi j = 2 powi (int (nat (j - e)) + e)" using assms by simp
  also have "\<dots> = 2 powi int (nat (j - e)) * 2 powi e"
    by (rule power_int_add) simp
  also have "(2::real) powi int (nat (j - e)) = 2 ^ nat (j - e)"
    by (rule power_int_of_nat)
  finally show ?thesis by simp
qed

lemma rnd_le_grid:
  assumes "x \<noteq> 0" "expo x \<le> j" "x \<le> of_int m * 2 powi j"
  shows "rnd x \<le> of_int m * 2 powi j"
proof -
  let ?e = "expo x" and ?M = "m * 2 ^ nat (j - expo x)"
  have g: "of_int m * (2::real) powi j = of_int ?M * 2 powi ?e"
    by (rule grid_coarser [OF assms(2)])
  have "x / 2 powi ?e \<le> of_int ?M"
    using assms(3) unfolding g by (simp add: pos_divide_le_eq)
  then have "rne (x / 2 powi ?e) \<le> ?M" by (rule rne_le_int)
  then have "(of_int (rne (x / 2 powi ?e)) :: real) \<le> of_int ?M" by (simp only: of_int_le_iff)
  then have "of_int (rne (x / 2 powi ?e)) * 2 powi ?e \<le> of_int ?M * (2::real) powi ?e"
    by (rule mult_right_mono) simp
  then show ?thesis using assms(1) unfolding g by (simp add: rnd_def)
qed

lemma rnd_ge_grid:
  assumes "x \<noteq> 0" "expo x \<le> j" "of_int m * 2 powi j \<le> x"
  shows "of_int m * 2 powi j \<le> rnd x"
proof -
  have "rnd (- x) \<le> of_int (- m) * 2 powi j"
    using assms by (intro rnd_le_grid) (simp_all add: expo_minus)
  then show ?thesis by (simp add: rnd_minus)
qed

lemma rnd_fix:
  assumes "\<bar>m\<bar> < 2 ^ 53" "- 1074 \<le> j"
  shows "rnd (of_int m * 2 powi j) = of_int m * 2 powi j"
proof (cases "m = 0")
  case True
  then show ?thesis by (simp add: rnd_0)
next
  case False
  let ?x = "of_int m * (2::real) powi j"
  have x0: "?x \<noteq> 0" using False by simp
  have "\<bar>of_int m :: real\<bar> < 2 ^ 53" using assms(1) by (metis of_int_abs of_int_less_numeral_power_cancel_iff)
  then have "\<bar>?x\<bar> < 2 ^ 53 * 2 powi j"
    by (simp add: abs_mult)
  also have "\<dots> = 2 powi (j + 53)" by (simp add: power_int_add)
  finally have e: "expo ?x \<le> j" using x0 assms(2) by (intro expo_le)
  show ?thesis
    using rnd_le_grid [OF x0 e order_refl] rnd_ge_grid [OF x0 e order_refl] by simp
qed

lemma rnd_nonneg: "0 \<le> x \<Longrightarrow> 0 \<le> rnd x"
  using rnd_ge_grid [of x "expo x" 0] by (cases "x = 0") (simp_all add: rnd_0)

lemma rnd_nonpos: "x \<le> 0 \<Longrightarrow> rnd x \<le> 0"
  using rnd_nonneg [of "- x"] by (simp add: rnd_minus)

lemma rnd_mono_pos:
  assumes "0 < x" "x \<le> y"
  shows "rnd x \<le> rnd y"
proof (cases "expo x = expo y")
  case True
  have "x / 2 powi expo y \<le> y / 2 powi expo y"
    using assms(2) by (simp add: divide_right_mono)
  then have "rne (x / 2 powi expo y) \<le> rne (y / 2 powi expo y)" by (rule rne_mono)
  then have "(of_int (rne (x / 2 powi expo y)) :: real) \<le> of_int (rne (y / 2 powi expo y))"
    by (simp only: of_int_le_iff)
  then have "of_int (rne (x / 2 powi expo y)) * 2 powi expo y
      \<le> of_int (rne (y / 2 powi expo y)) * (2::real) powi expo y"
    by (rule mult_right_mono) simp
  then show ?thesis using assms True by (simp add: rnd_def)
next
  case False
  have x0: "x \<noteq> 0" and y0: "y \<noteq> 0" using assms by simp_all
  have "expo x \<le> expo y" using assms by (intro expo_mono) simp_all
  with False have lt: "expo x < expo y" by simp
  define E where "E = \<lfloor>log 2 \<bar>y\<bar>\<rfloor>"
  have "- 1074 < expo y" using lt expo_ge_min [of x] by linarith
  then have ey: "expo y = E - 52" unfolding expo_def E_def by linarith
  have "\<lfloor>log 2 \<bar>x\<bar>\<rfloor> - 52 \<le> expo x" unfolding expo_def by linarith
  with lt ey have Ex: "\<lfloor>log 2 \<bar>x\<bar>\<rfloor> + 1 \<le> E" by linarith
  have "\<bar>x\<bar> < 2 powi (\<lfloor>log 2 \<bar>x\<bar>\<rfloor> + 1)" by (rule binade(2) [OF x0])
  also have "\<dots> \<le> 2 powi E" by (rule two_powi_mono [OF Ex])
  finally have xP: "x \<le> of_int 1 * 2 powi E" using assms(1) by simp
  have Py: "of_int 1 * 2 powi E \<le> y"
    using binade(1) [OF y0] assms unfolding E_def by simp
  have "rnd x \<le> of_int 1 * 2 powi E"
    using lt ey by (intro rnd_le_grid [OF x0 _ xP]) simp
  also have "\<dots> \<le> rnd y"
    using ey by (intro rnd_ge_grid [OF y0 _ Py]) simp
  finally show ?thesis .
qed

lemma rnd_mono:
  assumes "x \<le> y" shows "rnd x \<le> rnd y"
proof -
  consider "0 < x" | "x \<le> 0" "0 \<le> y" | "y < 0" by linarith
  then show ?thesis
  proof cases
    case 1
    then show ?thesis using assms by (rule rnd_mono_pos)
  next
    case 2
    then show ?thesis using rnd_nonpos [of x] rnd_nonneg [of y] by linarith
  next
    case 3
    then have "rnd (- y) \<le> rnd (- x)" using assms by (intro rnd_mono_pos) simp_all
    then show ?thesis by (simp add: rnd_minus)
  qed
qed

lemma rnd_error:
  assumes "x \<noteq> 0"
  shows "\<bar>rnd x - x\<bar> \<le> 2 powi expo x / 2"
proof -
  let ?e = "expo x"
  have "\<bar>of_int (rne (x / 2 powi ?e)) - x / 2 powi ?e\<bar> * 2 powi ?e \<le> 1 / 2 * 2 powi ?e"
    by (intro mult_right_mono rne_error) simp
  moreover have "\<bar>of_int (rne (x / 2 powi ?e)) - x / 2 powi ?e\<bar> * 2 powi ?e
      = \<bar>of_int (rne (x / 2 powi ?e)) * 2 powi ?e - x\<bar>"
  proof -
    have "\<bar>of_int (rne (x / 2 powi ?e)) - x / 2 powi ?e\<bar> * 2 powi ?e
        = \<bar>(of_int (rne (x / 2 powi ?e)) - x / 2 powi ?e) * 2 powi ?e\<bar>"
      by (simp add: abs_mult)
    also have "(of_int (rne (x / 2 powi ?e)) - x / 2 powi ?e) * 2 powi ?e
        = of_int (rne (x / 2 powi ?e)) * 2 powi ?e - x"
      by (simp add: algebra_simps)
    finally show ?thesis .
  qed
  ultimately show ?thesis using assms by (simp add: rnd_def)
qed

lemma rnd_abs_error:
  assumes "\<bar>x\<bar> \<le> 2 powi j" "- 1022 \<le> j"
  shows "\<bar>rnd x - x\<bar> \<le> 2 powi (j - 53)"
proof (cases "x = 0")
  case True
  then show ?thesis by (simp add: rnd_0)
next
  case False
  have "\<bar>x\<bar> < 2 powi (j - 52 + 53)"
  proof -
    have "(2::real) powi j < 2 powi (j - 52 + 53)" by (rule power_int_strict_increasing) simp_all
    with assms(1) show ?thesis by linarith
  qed
  then have "expo x \<le> j - 52" using False assms(2) by (intro expo_le) simp_all
  then have "(2::real) powi expo x \<le> 2 powi (j - 52)" by (rule two_powi_mono)
  moreover have "(2::real) powi (j - 52) = 2 * 2 powi (j - 53)"
    using power_int_add_1' [of "2::real" "j - 53"] by simp
  ultimately show ?thesis using rnd_error [OF False] by linarith
qed

lemma rnd_rel_error:
  assumes "2 powi (- 1022) \<le> \<bar>x\<bar>"
  shows "\<bar>rnd x - x\<bar> \<le> \<bar>x\<bar> / 2 ^ 53"
proof -
  have x0: "x \<noteq> 0" using assms two_powi_pos [of "- 1022"] by auto
  define E where "E = \<lfloor>log 2 \<bar>x\<bar>\<rfloor>"
  have "- 1022 \<le> E" unfolding E_def by (rule floor_log2_ge [OF x0 assms])
  then have e: "expo x = E - 52" unfolding expo_def E_def by linarith
  have "(2::real) powi (E - 52) / 2 = 2 powi E / 2 ^ 53"
    by (simp add: power_int_diff)
  moreover have "2 powi E \<le> \<bar>x\<bar>" unfolding E_def by (rule binade(1) [OF x0])
  ultimately show ?thesis using rnd_error [OF x0] unfolding e
    by (simp add: divide_right_mono order_trans)
qed

lemma rnd_one: "rnd 1 = 1"
  using rnd_fix [of 1 0] by simp

lemma rnd_half: "rnd (1 / 2) = 1 / 2"
  using rnd_fix [of 1 "- 1"] by (simp add: power_int_minus_divide)

lemma rnd_pow2: "- 1074 \<le> j \<Longrightarrow> rnd (2 powi j) = 2 powi j"
  using rnd_fix [of 1 j] by simp

lemma rnd_int_small: "\<bar>m\<bar> < 2 ^ 53 \<Longrightarrow> rnd (of_int m) = of_int m"
  using rnd_fix [of m 0] by simp

lemma rnd_le_one: "x \<le> 1 \<Longrightarrow> rnd x \<le> 1"
  using rnd_mono [of x 1] by (simp add: rnd_one)

lemma rnd_unit: "0 \<le> x \<Longrightarrow> x \<le> 1 \<Longrightarrow> 0 \<le> rnd x \<and> rnd x \<le> 1"
  by (simp add: rnd_nonneg rnd_le_one)

lemma rnd_abs_le_pow2:
  assumes "\<bar>x\<bar> \<le> 2 powi j" "- 1074 \<le> j"
  shows "\<bar>rnd x\<bar> \<le> 2 powi j"
proof -
  have "rnd x \<le> rnd (2 powi j)" using assms(1) by (intro rnd_mono) linarith
  moreover have "rnd (- (2 powi j)) \<le> rnd x" using assms(1) by (intro rnd_mono) linarith
  ultimately show ?thesis by (simp add: rnd_minus rnd_pow2 [OF assms(2)] abs_le_iff)
qed

lemma overflow_threshold_gt_16: "16 < overflow_threshold"
  by (simp add: overflow_threshold_def)

lemma fl_finite: "\<bar>x\<bar> < overflow_threshold \<Longrightarrow> fl x = Fin (rnd x)"
  by (auto simp: fl_def)

lemma fl_small: "\<bar>x\<bar> \<le> 16 \<Longrightarrow> fl x = Fin (rnd x)"
  using overflow_threshold_gt_16 by (intro fl_finite) linarith

lemma rnd_error_unit: "\<bar>x\<bar> \<le> 1 \<Longrightarrow> \<bar>rnd x - x\<bar> \<le> 1 / 2 ^ 53"
  using rnd_abs_error [of x 0] by (simp add: power_int_minus_divide)

lemma rnd_error_16: "\<bar>x\<bar> \<le> 16 \<Longrightarrow> \<bar>rnd x - x\<bar> \<le> 1 / 2 ^ 49"
  using rnd_abs_error [of x 4] by (simp add: power_int_minus_divide)

lemma expo_upper_binade: "1 / 2 \<le> x \<Longrightarrow> x < 1 \<Longrightarrow> expo x = - 53"
  by (intro expo_eq) (simp_all add: power_int_minus_divide)

lemma scale_upper_binade: "x / 2 powi (- 53) = x * 2 ^ 53" for x :: real
  by (simp add: power_int_minus_divide)

lemma rnd_to_one:
  assumes "1 - 1 / 2 ^ 54 \<le> x" "x \<le> 1"
  shows "rnd x = 1"
proof (cases "x = 1")
  case True
  then show ?thesis by (simp add: rnd_one)
next
  case False
  with assms have x: "1 / 2 \<le> x" "x < 1" by simp_all
  have e: "expo x = - 53"
    using x by (rule expo_upper_binade)
  have x0: "x \<noteq> 0" using x by simp
  have "real_of_int (2 ^ 53 - 1) + 1 / 2 \<le> x / 2 powi (- 53)"
    unfolding scale_upper_binade using assms(1) by simp
  then have "2 ^ 53 - 1 + 1 \<le> rne (x / 2 powi (- 53))"
    by (intro rne_above_half_odd) simp_all
  then have "(2 ^ 53 :: int) \<le> rne (x / 2 powi (- 53))" by simp
  then have "real_of_int (2 ^ 53) \<le> of_int (rne (x / 2 powi (- 53)))"
    by (simp only: of_int_le_iff)
  then have "real_of_int (2 ^ 53) * 2 powi (- 53) \<le> of_int (rne (x / 2 powi (- 53))) * 2 powi (- 53)"
    by (rule mult_right_mono) simp
  moreover have "real_of_int (2 ^ 53) * 2 powi (- 53) = 1" by (simp add: power_int_minus_divide)
  ultimately have "1 \<le> rnd x"
    using x0 by (simp only: rnd_def e if_False)
  with rnd_le_one [of x] x show ?thesis by simp
qed

lemma rnd_below_one:
  assumes "1 / 2 \<le> x" "x < 1 - 1 / 2 ^ 54"
  shows "rnd x \<le> 1 - 1 / 2 ^ 53"
proof -
  have x: "x < 1" using assms(2) by simp
  have e: "expo x = - 53"
    using assms(1) x by (rule expo_upper_binade)
  have x0: "x \<noteq> 0" using assms(1) by simp
  have "x / 2 powi (- 53) < real_of_int (2 ^ 53 - 1) + 1 / 2"
    unfolding scale_upper_binade using assms(2) by simp
  then have "rne (x / 2 powi (- 53)) \<le> 2 ^ 53 - 1" by (rule rne_below_half)
  then have "real_of_int (rne (x / 2 powi (- 53))) \<le> of_int (2 ^ 53 - 1)"
    by (simp only: of_int_le_iff)
  then have "of_int (rne (x / 2 powi (- 53))) * 2 powi (- 53) \<le> real_of_int (2 ^ 53 - 1) * 2 powi (- 53)"
    by (rule mult_right_mono) simp
  moreover have "real_of_int (2 ^ 53 - 1) * 2 powi (- 53) = 1 - 1 / 2 ^ 53"
    by (simp add: power_int_minus_divide)
  ultimately show ?thesis
    using x0 by (simp only: rnd_def e if_False)
qed

lemma rnd_halve:
  assumes "rnd a = a" "2 powi (- 1021) \<le> \<bar>a\<bar>"
  shows "rnd (a / 2) = a / 2"
proof -
  have a0: "a \<noteq> 0" using assms(2) two_powi_pos [of "- 1021"] by linarith
  define E where "E = \<lfloor>log 2 \<bar>a\<bar>\<rfloor>"
  have E: "- 1021 \<le> E" unfolding E_def by (rule floor_log2_ge [OF a0 assms(2)])
  then have ea: "expo a = E - 52" unfolding expo_def E_def by linarith
  have b: "2 powi E \<le> \<bar>a\<bar>" "\<bar>a\<bar> < 2 powi (E + 1)"
    unfolding E_def by (rule binade [OF a0])+
  have p1: "(2::real) powi (E + 1) = 2 * 2 powi E" by (simp add: power_int_add)
  have p2: "(2::real) powi E = 2 * 2 powi (E - 1)" using power_int_add_1' [of "2::real" "E - 1"] by simp
  have eh: "expo (a / 2) = E - 53"
  proof (rule expo_eq)
    show "2 powi (E - 53 + 52) \<le> \<bar>a / 2\<bar>" using b(1) p2 by simp
    show "\<bar>a / 2\<bar> < 2 powi (E - 53 + 53)" using b(2) p1 by simp
    show "- 1074 \<le> E - 53" using E by simp
  qed
  have p3: "(2::real) powi (E - 52) = 2 * 2 powi (E - 53)"
    using power_int_add_1' [of "2::real" "E - 53"] by simp
  have "a = of_int (rne (a / 2 powi (E - 52))) * 2 powi (E - 52)"
    using assms(1) a0 by (simp add: rnd_def ea)
  then have "a / 2 = of_int (rne (a / 2 powi (E - 52))) * 2 powi (E - 53)"
    unfolding p3 by simp
  then obtain m :: int where m: "a / 2 = of_int m * 2 powi (E - 53)" ..
  have h0: "a / 2 \<noteq> 0" using a0 by simp
  have "rnd (a / 2) \<le> of_int m * 2 powi (E - 53)"
    by (rule rnd_le_grid [OF h0]) (simp_all add: eh m [symmetric])
  moreover have "of_int m * 2 powi (E - 53) \<le> rnd (a / 2)"
    by (rule rnd_ge_grid [OF h0]) (simp_all add: eh m [symmetric])
  ultimately show ?thesis using m by simp
qed

lemma rnd_int_pos: "0 < n \<Longrightarrow> 1 \<le> rnd (of_int n)"
  using rnd_mono [of 1 "of_int n"] by (simp add: rnd_one)

lemma rnd_idem: "rnd (rnd x) = rnd x"
proof (cases "x = 0")
  case True
  then show ?thesis by (simp add: rnd_0)
next
  case False
  define e where "e = expo x"
  define M where "M = rne (x / 2 powi e)"
  have r: "rnd x = of_int M * 2 powi e" using False by (simp add: rnd_def M_def e_def)
  have e_min: "- 1074 \<le> e" unfolding e_def by (rule expo_ge_min)
  have "\<lfloor>log 2 \<bar>x\<bar>\<rfloor> - 52 \<le> e" unfolding e_def expo_def by linarith
  then have "\<lfloor>log 2 \<bar>x\<bar>\<rfloor> + 1 \<le> e + 53" by linarith
  then have "(2::real) powi (\<lfloor>log 2 \<bar>x\<bar>\<rfloor> + 1) \<le> 2 powi (e + 53)" by (rule two_powi_mono)
  with binade(2) [OF False] have "\<bar>x\<bar> < 2 powi (e + 53)" by linarith
  moreover have "(2::real) powi (e + 53) = 2 ^ 53 * 2 powi e" by (simp add: power_int_add)
  ultimately have "\<bar>x\<bar> / 2 powi e < 2 ^ 53" by (simp add: pos_divide_less_eq)
  moreover have "x / 2 powi e \<le> \<bar>x\<bar> / 2 powi e" by (intro divide_right_mono) simp_all
  moreover have "(- \<bar>x\<bar>) / 2 powi e \<le> x / 2 powi e" by (intro divide_right_mono) simp_all
  ultimately have b: "x / 2 powi e \<le> of_int (2 ^ 53)" "of_int (- (2 ^ 53)) \<le> x / 2 powi e"
    by simp_all
  have "M \<le> 2 ^ 53" unfolding M_def by (rule rne_le_int [OF b(1)])
  moreover have "- (2 ^ 53) \<le> M" unfolding M_def by (rule rne_ge_int [OF b(2)])
  ultimately consider "\<bar>M\<bar> < 2 ^ 53" | "M = 2 ^ 53" | "M = - (2 ^ 53)" by linarith
  then show ?thesis
  proof cases
    case 1
    then show ?thesis unfolding r using e_min by (rule rnd_fix)
  next
    case 2
    have "of_int M * (2::real) powi e = of_int 1 * 2 powi (e + 53)"
      by (simp add: 2 power_int_add)
    moreover have "rnd (of_int 1 * 2 powi (e + 53)) = of_int 1 * 2 powi (e + 53)"
      using e_min by (intro rnd_fix) simp_all
    ultimately show ?thesis unfolding r by simp
  next
    case 3
    have "of_int M * (2::real) powi e = of_int (- 1) * 2 powi (e + 53)"
      by (simp add: 3 power_int_add)
    moreover have "rnd (of_int (- 1) * 2 powi (e + 53)) = of_int (- 1) * 2 powi (e + 53)"
      using e_min by (intro rnd_fix) simp_all
    ultimately show ?thesis unfolding r by simp
  qed
qed

lemma rnd_le_float: "x \<le> rnd y \<Longrightarrow> rnd x \<le> rnd y"
  using rnd_mono [of x "rnd y"] by (simp add: rnd_idem)

lemma rnd_ge_float: "rnd y \<le> x \<Longrightarrow> rnd y \<le> rnd x"
  using rnd_mono [of "rnd y" x] by (simp add: rnd_idem)


section \<open>The floating-point operations of the interval estimator\<close>

lemma f64_sub_Fin: "f64_sub (Fin a) (Fin b) = fl (a - b)"
  by (simp add: f64_sub_def np_sub_def)

lemma f64_add_Fin: "f64_add (Fin a) (Fin b) = fl (a + b)"
  by (simp add: f64_add_def)

lemma f64_mul_Fin: "f64_mul (Fin a) (Fin b) = fl (a * b)"
  by (simp add: f64_mul_def)

lemma f64_div_Fin: "b \<noteq> 0 \<Longrightarrow> f64_div (Fin a) (Fin b) = fl (a / b)"
  by (simp add: f64_div_def)

lemma f64_sqrt_Fin: "0 \<le> a \<Longrightarrow> f64_sqrt (Fin a) = fl (sqrt a)"
  by (simp add: f64_sqrt_def)

lemma p_hat_f_range:
  assumes "0 < n" "0 \<le> k" "k \<le> n"
  shows "0 \<le> p_hat_f k n" "p_hat_f k n \<le> 1"
proof -
  have "0 \<le> real_of_int k / real_of_int n" "real_of_int k / real_of_int n \<le> 1"
    using assms by simp_all
  then show "0 \<le> p_hat_f k n" "p_hat_f k n \<le> 1"
    unfolding p_hat_f_def by (simp_all add: rnd_nonneg rnd_le_one)
qed

lemma py_int_truediv_valid:
  assumes "0 < n" "0 \<le> k" "k \<le> n"
  shows "py_int_truediv k n = Inr (Fin (p_hat_f k n))"
proof -
  have "0 \<le> real_of_int k / real_of_int n" "real_of_int k / real_of_int n \<le> 1"
    using assms by simp_all
  then have "\<bar>real_of_int k / real_of_int n\<bar> \<le> 16" by linarith
  then have "fl (real_of_int k / real_of_int n) = Fin (p_hat_f k n)"
    unfolding p_hat_f_def by (rule fl_small)
  then show ?thesis using assms(1) by (simp add: py_int_truediv_def)
qed

lemma py_float_of_int_valid:
  assumes "0 < n" "real_of_int n < overflow_threshold"
  shows "py_float_of_int n = Inr (Fin (rnd (real_of_int n)))"
proof -
  have "\<bar>real_of_int n\<bar> < overflow_threshold" using assms by simp
  then show ?thesis by (simp add: py_float_of_int_def fl_finite)
qed

lemma q_f_range:
  assumes "rnd alpha = alpha" "1 / 2 ^ 53 < alpha" "alpha < 1"
  shows "q_f alpha = rnd (1 - alpha / 2)" "1 / 2 \<le> q_f alpha" "q_f alpha \<le> 1 - 1 / 2 ^ 53"
proof -
  have "(2::real) powi (- 1021) \<le> 1 / 2 ^ 53" by (simp add: power_int_minus_divide)
  then have "2 powi (- 1021) \<le> \<bar>alpha\<bar>" using assms(2) by linarith
  then have h: "rnd (alpha / 2) = alpha / 2" by (rule rnd_halve [OF assms(1)])
  show q: "q_f alpha = rnd (1 - alpha / 2)" by (simp add: q_f_def h)
  have "rnd (1 / 2) \<le> rnd (1 - alpha / 2)" using assms(3) by (intro rnd_mono) simp
  then show "1 / 2 \<le> q_f alpha" by (simp add: q rnd_half)
  have "1 / 2 \<le> 1 - alpha / 2" "1 - alpha / 2 < 1 - 1 / 2 ^ 54"
    using assms(2,3) by simp_all
  then show "q_f alpha \<le> 1 - 1 / 2 ^ 53" unfolding q by (rule rnd_below_one)
qed

lemma z_f_range:
  assumes "1 / 2 \<le> q_f alpha" "q_f alpha \<le> 1 - 1 / 2 ^ 53"
  shows "0 \<le> z_f alpha" "z_f alpha \<le> 10"
proof -
  note b = std_normal_quantile_bound [OF assms]
  show "0 \<le> z_f alpha" unfolding z_f_def using b(1) by (rule rnd_nonneg)
  have "rnd (std_normal_quantile (q_f alpha)) \<le> rnd (of_int 10)" using b(2) by (intro rnd_mono) simp
  also have "rnd (of_int 10) = of_int 10" by (rule rnd_int_small) simp
  finally show "z_f alpha \<le> 10" by (simp add: z_f_def)
qed

lemma var_f_range:
  assumes "0 < n" "0 \<le> k" "k \<le> n"
  shows "0 \<le> var_f k n" "var_f k n \<le> 1"
proof -
  note p = p_hat_f_range [OF assms]
  have r: "0 \<le> rnd (1 - p_hat_f k n)" "rnd (1 - p_hat_f k n) \<le> 1"
    using p by (simp_all add: rnd_nonneg rnd_le_one)
  have "0 \<le> p_hat_f k n * rnd (1 - p_hat_f k n)" using p(1) r(1) by (rule mult_nonneg_nonneg)
  moreover have "p_hat_f k n * rnd (1 - p_hat_f k n) \<le> 1 * 1"
    using p r by (intro mult_mono) simp_all
  ultimately have w: "0 \<le> rnd (p_hat_f k n * rnd (1 - p_hat_f k n))"
    "rnd (p_hat_f k n * rnd (1 - p_hat_f k n)) \<le> 1"
    by (simp_all add: rnd_nonneg rnd_le_one)
  have n1: "1 \<le> rnd (real_of_int n)" using assms(1) by (rule rnd_int_pos)
  have "0 \<le> rnd (p_hat_f k n * rnd (1 - p_hat_f k n)) / rnd (real_of_int n)"
    using w(1) n1 by simp
  moreover have "rnd (p_hat_f k n * rnd (1 - p_hat_f k n)) / rnd (real_of_int n) \<le> 1"
    using w n1 by (simp add: divide_le_eq)
  ultimately show "0 \<le> var_f k n" "var_f k n \<le> 1"
    unfolding var_f_def by (simp_all add: rnd_nonneg rnd_le_one)
qed

lemma se_f_range:
  assumes "0 < n" "0 \<le> k" "k \<le> n"
  shows "0 \<le> se_f k n" "se_f k n \<le> 1"
proof -
  note v = var_f_range [OF assms]
  have "sqrt (var_f k n) \<le> 1" using v by simp
  then show "0 \<le> se_f k n" "se_f k n \<le> 1"
    unfolding se_f_def using v(1) by (simp_all add: rnd_nonneg rnd_le_one)
qed

lemma hw_f_range:
  assumes "0 < n" "0 \<le> k" "k \<le> n" "1 / 2 \<le> q_f alpha" "q_f alpha \<le> 1 - 1 / 2 ^ 53"
  shows "0 \<le> hw_f k n alpha" "hw_f k n alpha \<le> 10"
proof -
  note s = se_f_range [OF assms(1-3)] and z = z_f_range [OF assms(4,5)]
  have "0 \<le> z_f alpha * se_f k n" using z(1) s(1) by (rule mult_nonneg_nonneg)
  then show "0 \<le> hw_f k n alpha" unfolding hw_f_def by (rule rnd_nonneg)
  have "z_f alpha * se_f k n \<le> 10 * 1" using z s by (intro mult_mono) simp_all
  then have "rnd (z_f alpha * se_f k n) \<le> rnd (of_int 10)" by (intro rnd_mono) simp
  also have "rnd (of_int 10) = of_int 10" by (rule rnd_int_small) simp
  finally show "hw_f k n alpha \<le> 10" by (simp add: hw_f_def)
qed

lemma proportion_ci_regular:
  assumes "0 < n" "real_of_int n < overflow_threshold" "0 \<le> k" "k \<le> n"
    and "rnd alpha = alpha" "1 / 2 ^ 53 < alpha" "alpha < 1"
  shows "proportion_ci k n (Fin alpha) =
    Inr (Fin (p_hat_f k n), Fin (rnd (p_hat_f k n - hw_f k n alpha)),
         Fin (rnd (p_hat_f k n + hw_f k n alpha)))"
proof -
  note v = assms(1,3,4)
  note p = p_hat_f_range [OF v] and q = q_f_range [OF assms(5-7)]
  note z = z_f_range [OF q(2,3)] and s = se_f_range [OF v] and h = hw_f_range [OF v q(2,3)]
  note var = var_f_range [OF v]
  have n1: "1 \<le> rnd (real_of_int n)" using assms(1) by (rule rnd_int_pos)
  have s1: "py_float_truediv (Fin alpha) (Fin 2) = Inr (Fin (rnd (alpha / 2)))"
    using assms(6,7) by (simp add: py_float_truediv_def f64_div_Fin fl_small)
  have s2: "f64_sub (Fin 1) (Fin (rnd (alpha / 2))) = Fin (q_f alpha)"
  proof -
    have "0 \<le> rnd (alpha / 2)" "rnd (alpha / 2) \<le> 1"
      using assms(6,7) by (simp_all add: rnd_nonneg rnd_le_one)
    then have "\<bar>1 - rnd (alpha / 2)\<bar> \<le> 16" by simp
    then show ?thesis by (simp add: f64_sub_Fin fl_small q_f_def)
  qed
  have s3: "norm_ppf (Fin (q_f alpha)) = Fin (z_f alpha)"
  proof -
    have "0 < q_f alpha" "q_f alpha < 1" using q(2,3) by simp_all
    moreover have "\<bar>std_normal_quantile (q_f alpha)\<bar> \<le> 16"
      using std_normal_quantile_bound [OF q(2,3)] by simp
    ultimately show ?thesis by (simp add: fl_small z_f_def)
  qed
  have s4: "f64_sub (Fin 1) (Fin (p_hat_f k n)) = Fin (rnd (1 - p_hat_f k n))"
    using p by (simp add: f64_sub_Fin fl_small)
  have r: "0 \<le> rnd (1 - p_hat_f k n)" "rnd (1 - p_hat_f k n) \<le> 1"
    using p by (simp_all add: rnd_nonneg rnd_le_one)
  have pr: "0 \<le> p_hat_f k n * rnd (1 - p_hat_f k n)" "p_hat_f k n * rnd (1 - p_hat_f k n) \<le> 1"
  proof -
    show "0 \<le> p_hat_f k n * rnd (1 - p_hat_f k n)" using p(1) r(1) by (rule mult_nonneg_nonneg)
    have "p_hat_f k n * rnd (1 - p_hat_f k n) \<le> 1 * 1" using p r by (intro mult_mono) simp_all
    then show "p_hat_f k n * rnd (1 - p_hat_f k n) \<le> 1" by simp
  qed
  have s5: "f64_mul (Fin (p_hat_f k n)) (Fin (rnd (1 - p_hat_f k n)))
      = Fin (rnd (p_hat_f k n * rnd (1 - p_hat_f k n)))"
    using pr by (simp add: f64_mul_Fin fl_small)
  have w: "0 \<le> rnd (p_hat_f k n * rnd (1 - p_hat_f k n))"
    "rnd (p_hat_f k n * rnd (1 - p_hat_f k n)) \<le> 1"
    using pr by (simp_all add: rnd_nonneg rnd_le_one)
  have t: "0 \<le> rnd (p_hat_f k n * rnd (1 - p_hat_f k n)) / rnd (real_of_int n)"
    "rnd (p_hat_f k n * rnd (1 - p_hat_f k n)) / rnd (real_of_int n) \<le> 1"
    using w n1 by (simp_all add: divide_le_eq)
  have s6: "py_float_truediv (Fin (rnd (p_hat_f k n * rnd (1 - p_hat_f k n)))) (Fin (rnd (real_of_int n)))
      = Inr (Fin (var_f k n))"
  proof -
    have "\<bar>rnd (p_hat_f k n * rnd (1 - p_hat_f k n)) / rnd (real_of_int n)\<bar> \<le> 16"
      using t by linarith
    then have "fl (rnd (p_hat_f k n * rnd (1 - p_hat_f k n)) / rnd (real_of_int n)) = Fin (var_f k n)"
      unfolding var_f_def by (rule fl_small)
    moreover have "rnd (real_of_int n) \<noteq> 0" using n1 by linarith
    ultimately show ?thesis by (simp add: py_float_truediv_def f64_div_Fin)
  qed
  have s7: "f64_sqrt (Fin (var_f k n)) = Fin (se_f k n)"
  proof -
    have "sqrt (var_f k n) \<le> 1" using var by simp
    moreover have "0 \<le> sqrt (var_f k n)" using var(1) by simp
    ultimately have "\<bar>sqrt (var_f k n)\<bar> \<le> 16" by linarith
    then show ?thesis using var(1) by (simp add: f64_sqrt_Fin fl_small se_f_def)
  qed
  have s8: "f64_mul (Fin (z_f alpha)) (Fin (se_f k n)) = Fin (hw_f k n alpha)"
  proof -
    have "0 \<le> z_f alpha * se_f k n" using z(1) s(1) by (rule mult_nonneg_nonneg)
    moreover have "z_f alpha * se_f k n \<le> 10 * 1" using z s by (intro mult_mono) simp_all
    ultimately have "\<bar>z_f alpha * se_f k n\<bar> \<le> 16" by simp
    then show ?thesis by (simp add: f64_mul_Fin fl_small hw_f_def)
  qed
  have s9: "f64_sub (Fin (p_hat_f k n)) (Fin (hw_f k n alpha)) = Fin (rnd (p_hat_f k n - hw_f k n alpha))"
    using p h by (simp add: f64_sub_Fin fl_small)
  have s10: "f64_add (Fin (p_hat_f k n)) (Fin (hw_f k n alpha)) = Fin (rnd (p_hat_f k n + hw_f k n alpha))"
    using p h by (simp add: f64_add_Fin fl_small)
  show ?thesis
    unfolding proportion_ci_def
    by (simp only: py_int_truediv_valid [OF v] py_float_of_int_valid [OF assms(1,2)]
        s1 s2 s3 s4 s5 s6 s7 s8 s9 s10 sum.case Let_def)
qed

lemma rnd_quarter: "rnd (1 / 4) = 1 / 4"
  using rnd_fix [of 1 "- 2"] by (simp add: power_int_minus_divide)

lemma fl_0: "fl 0 = Fin 0"
  by (simp add: fl_small rnd_0)

lemma fl_1: "fl 1 = Fin 1"
  by (simp add: fl_small rnd_one)




lemma se_f_at_ends:
  "se_f 0 n = 0" "se_f n n = 0" if "0 < n"
proof -
  have "p_hat_f 0 n = 0" by (simp add: p_hat_f_def rnd_0)
  then show "se_f 0 n = 0" by (simp add: se_f_def var_f_def rnd_0)
  have "p_hat_f n n = 1" using that by (simp add: p_hat_f_def rnd_one)
  then show "se_f n n = 0" by (simp add: se_f_def var_f_def rnd_0)
qed

lemma p_hat_f_at_ends:
  "p_hat_f 0 n = 0" "p_hat_f n n = 1" if "0 < n"
  using that by (simp_all add: p_hat_f_def rnd_0 rnd_one)

lemma hw_f_at_ends:
  "hw_f 0 n alpha = 0" "hw_f n n alpha = 0" if "0 < n"
  using that by (simp_all add: hw_f_def se_f_at_ends rnd_0)

lemma ppf_at_tiny_alpha:
  assumes "0 \<le> a" "a \<le> 1 / 2 ^ 53"
  shows "py_float_truediv (Fin a) (Fin 2) = Inr (Fin (rnd (a / 2)))"
    and "norm_ppf (f64_sub (Fin 1) (Fin (rnd (a / 2)))) = PInf"
proof -
  have "\<bar>a / 2\<bar> \<le> 16" using assms by simp
  then show "py_float_truediv (Fin a) (Fin 2) = Inr (Fin (rnd (a / 2)))"
    by (simp add: py_float_truediv_def f64_div_Fin fl_small)
  have "rnd (a / 2) \<le> rnd (2 powi (- 54))"
    using assms by (intro rnd_mono) (simp add: power_int_minus_divide)
  also have "\<dots> = 2 powi (- 54)" by (rule rnd_pow2) simp
  finally have u: "rnd (a / 2) \<le> 1 / 2 ^ 54" by (simp add: power_int_minus_divide)
  have l: "0 \<le> rnd (a / 2)" using assms(1) by (intro rnd_nonneg) simp
  have "rnd (1 - rnd (a / 2)) = 1" using u l by (intro rnd_to_one) simp_all
  moreover have "\<bar>1 - rnd (a / 2)\<bar> \<le> 16" using u l by simp
  ultimately have "f64_sub (Fin 1) (Fin (rnd (a / 2))) = Fin 1"
    by (simp add: f64_sub_Fin fl_small)
  then show "norm_ppf (f64_sub (Fin 1) (Fin (rnd (a / 2)))) = PInf" by simp
qed

lemma proportion_ci_at_ends_tiny_alpha:
  assumes "0 < n" "real_of_int n < overflow_threshold" "0 \<le> a" "a \<le> 1 / 2 ^ 53"
  shows "proportion_ci 0 n (Fin a) = Inr (Fin 0, NaN, NaN)"
    and "proportion_ci n n (Fin a) = Inr (Fin 1, NaN, NaN)"
proof -
  note t = ppf_at_tiny_alpha [OF assms(3,4)]
  note nf = py_float_of_int_valid [OF assms(1,2)]
  have n1: "rnd (real_of_int n) \<noteq> 0" using rnd_int_pos [OF assms(1)] by linarith
  have d0: "py_int_truediv 0 n = Inr (Fin 0)"
    using py_int_truediv_valid [of n 0] assms(1) by (simp add: p_hat_f_at_ends)
  have dn: "py_int_truediv n n = Inr (Fin 1)"
    using py_int_truediv_valid [of n n] assms(1) by (simp add: p_hat_f_at_ends)
  have v: "py_float_truediv (Fin 0) (Fin (rnd (real_of_int n))) = Inr (Fin 0)"
    using n1 by (simp add: py_float_truediv_def f64_div_Fin fl_0)
  have s: "f64_sqrt (Fin 0) = Fin 0" by (simp add: f64_sqrt_Fin fl_0)
  have m: "f64_mul PInf (Fin 0) = NaN" by (simp add: f64_mul_def)
  have e: "f64_sub x NaN = NaN" "f64_add x NaN = NaN" for x
    by (cases x; simp add: f64_sub_def f64_add_def np_sub_def)+
  have c: "f64_sub (Fin 1) (Fin 0) = Fin 1" "f64_sub (Fin 1) (Fin 1) = Fin 0"
    "f64_mul (Fin 0) (Fin 1) = Fin 0" "f64_mul (Fin 1) (Fin 0) = Fin 0"
    by (simp_all add: f64_sub_Fin f64_mul_Fin fl_0 fl_1)
  show "proportion_ci 0 n (Fin a) = Inr (Fin 0, NaN, NaN)"
    unfolding proportion_ci_def
    by (simp only: d0 t nf c v s m e sum.case Let_def)
  show "proportion_ci n n (Fin a) = Inr (Fin 1, NaN, NaN)"
    unfolding proportion_ci_def
    by (simp only: dn t nf c v s m e sum.case Let_def)
qed

lemma proportion_ci_overflow:
  assumes "0 \<le> k" "k \<le> n" "overflow_threshold \<le> real_of_int n"
  shows "proportion_ci k n alpha = Inl OverflowError"
proof -
  have "0 < overflow_threshold" using overflow_threshold_gt_16 by linarith
  then have n: "0 < n" using assms(3) by (simp add: less_le_trans)
  have "py_float_of_int n = Inl OverflowError"
    using assms(3) by (simp add: py_float_of_int_def fl_def)
  then show ?thesis
    unfolding proportion_ci_def
    by (simp add: py_int_truediv_valid [OF n assms(1,2)] py_float_truediv_def Let_def)
qed

lemma proportion_ci_zero_trials: "proportion_ci k 0 alpha = Inl ZeroDivisionError"
  by (simp add: proportion_ci_def py_int_truediv_def)

lemma proportion_ci_no_value_error: "proportion_ci k n alpha \<noteq> Inl ValueError"
  by (auto simp: proportion_ci_def py_int_truediv_def py_float_of_int_def py_float_truediv_def
        Let_def split: sum.splits float64.splits if_splits)

lemma rnd_int_nonzero: "n \<noteq> 0 \<Longrightarrow> rnd (real_of_int n) \<noteq> 0"
proof -
  assume "n \<noteq> 0"
  then consider "0 < n" | "0 < - n" by linarith
  then show ?thesis
  proof cases
    case 1
    then show ?thesis using rnd_int_pos [of n] by linarith
  next
    case 2
    then have "1 \<le> rnd (real_of_int (- n))" by (rule rnd_int_pos)
    then show ?thesis by (simp add: rnd_minus)
  qed
qed

lemma proportion_ci_returns:
  assumes "n \<noteq> 0" "\<bar>real_of_int k\<bar> < overflow_threshold" "\<bar>real_of_int n\<bar> < overflow_threshold"
  shows "\<exists>lo hi. proportion_ci k n alpha
      = Inr (Fin (rnd (real_of_int k / real_of_int n)), lo, hi)"
proof -
  have "1 \<le> \<bar>real_of_int n\<bar>" using assms(1) by (simp add: abs_if)
  then have "\<bar>real_of_int k\<bar> / \<bar>real_of_int n\<bar> \<le> \<bar>real_of_int k\<bar> / 1"
    by (intro divide_left_mono) simp_all
  then have "\<bar>real_of_int k / real_of_int n\<bar> < overflow_threshold"
    using assms(2) by simp
  then have d: "py_int_truediv k n = Inr (Fin (rnd (real_of_int k / real_of_int n)))"
    using assms(1) by (simp add: py_int_truediv_def fl_finite)
  have f: "py_float_of_int n = Inr (Fin (rnd (real_of_int n)))"
    using assms(3) by (simp add: py_float_of_int_def fl_finite)
  show ?thesis
    unfolding proportion_ci_def
    using rnd_int_nonzero [OF assms(1)]
    by (simp add: d f py_float_truediv_def Let_def del: norm_ppf.simps)
qed


section \<open>Rounding errors of the interval estimator\<close>

lemma abs_mult_le:
  fixes a b :: real
  assumes "\<bar>a\<bar> \<le> c" "\<bar>b\<bar> \<le> d"
  shows "\<bar>a * b\<bar> \<le> c * d"
  unfolding abs_mult using assms by (intro mult_mono) simp_all

lemma p_hat_f_error:
  assumes "0 < n" "0 \<le> k" "k \<le> n"
  shows "\<bar>p_hat_f k n - wald_point_spec k n\<bar> \<le> 1 / 2 ^ 53"
proof -
  have "\<bar>real_of_int k / real_of_int n\<bar> \<le> 1" using assms by simp
  then show ?thesis unfolding p_hat_f_def wald_point_spec_def by (rule rnd_error_unit)
qed

lemma var_f_error:
  assumes "0 < n" "0 \<le> k" "k \<le> n"
  shows "\<bar>var_f k n - wald_point_spec k n * (1 - wald_point_spec k n) / real_of_int n\<bar>
           \<le> 6 / 2 ^ 53"
proof -
  define u :: real where "u = 1 / 2 ^ 53"
  define P where "P = wald_point_spec k n"
  define p where "p = p_hat_f k n"
  define r where "r = rnd (1 - p)"
  define w where "w = rnd (p * r)"
  define N where "N = real_of_int n"
  define nf where "nf = rnd N"
  have u0: "0 \<le> u" by (simp add: u_def)
  have P: "0 \<le> P" "P \<le> 1" using assms by (simp_all add: P_def wald_point_spec_def)
  have p: "0 \<le> p" "p \<le> 1" unfolding p_def by (rule p_hat_f_range [OF assms])+
  have pe: "\<bar>p - P\<bar> \<le> u" unfolding p_def P_def u_def by (rule p_hat_f_error [OF assms])
  have r: "0 \<le> r" "r \<le> 1" using p by (simp_all add: r_def rnd_nonneg rnd_le_one)
  have "\<bar>1 - p\<bar> \<le> 1" using p by simp
  then have "\<bar>r - (1 - p)\<bar> \<le> u" unfolding r_def u_def by (rule rnd_error_unit)
  then have re: "\<bar>r - (1 - P)\<bar> \<le> 2 * u" using pe by linarith
  have pr: "0 \<le> p * r" "p * r \<le> 1"
  proof -
    show "0 \<le> p * r" using p(1) r(1) by (rule mult_nonneg_nonneg)
    have "p * r \<le> 1 * 1" using p r by (intro mult_mono) simp_all
    then show "p * r \<le> 1" by simp
  qed
  have "\<bar>(p - P) * r\<bar> \<le> u * 1" using pe r by (intro abs_mult_le) simp_all
  moreover have "\<bar>P * (r - (1 - P))\<bar> \<le> 1 * (2 * u)" using re P by (intro abs_mult_le) simp_all
  moreover have "p * r - P * (1 - P) = (p - P) * r + P * (r - (1 - P))" by (simp add: algebra_simps)
  ultimately have pre: "\<bar>p * r - P * (1 - P)\<bar> \<le> 3 * u" by linarith
  have "\<bar>p * r\<bar> \<le> 1" using pr by simp
  then have "\<bar>w - p * r\<bar> \<le> u" unfolding w_def u_def by (rule rnd_error_unit)
  then have we: "\<bar>w - P * (1 - P)\<bar> \<le> 4 * u" using pre by linarith
  have w: "0 \<le> w" "w \<le> 1" using pr by (simp_all add: w_def rnd_nonneg rnd_le_one)
  have N: "1 \<le> N" using assms(1) by (simp add: N_def)
  have nf: "1 \<le> nf" unfolding nf_def N_def using assms(1) by (rule rnd_int_pos)
  have "(2::real) powi (- 1022) \<le> 1" by (simp add: power_int_minus_divide)
  then have "2 powi (- 1022) \<le> \<bar>N\<bar>" using N by linarith
  then have "\<bar>rnd N - N\<bar> \<le> \<bar>N\<bar> / 2 ^ 53" by (rule rnd_rel_error)
  then have ne: "\<bar>nf - N\<bar> \<le> N * u" using N by (simp add: nf_def u_def)
  have W: "0 \<le> P * (1 - P)" "P * (1 - P) \<le> 1"
  proof -
    show "0 \<le> P * (1 - P)" using P by (intro mult_nonneg_nonneg) simp_all
    have "P * (1 - P) \<le> 1 * 1" using P by (intro mult_mono) simp_all
    then show "P * (1 - P) \<le> 1" by simp
  qed
  have d1: "\<bar>(w - P * (1 - P)) / nf\<bar> \<le> 4 * u"
  proof -
    have "\<bar>(w - P * (1 - P)) / nf\<bar> = \<bar>w - P * (1 - P)\<bar> / nf" using nf by simp
    also have "\<dots> \<le> \<bar>w - P * (1 - P)\<bar> / 1" using nf by (intro divide_left_mono) simp_all
    finally show ?thesis using we by simp
  qed
  have d2: "\<bar>P * (1 - P) * ((N - nf) / (nf * N))\<bar> \<le> u"
  proof -
    have "\<bar>(N - nf) / (nf * N)\<bar> = \<bar>nf - N\<bar> / (nf * N)"
      using nf N by (simp add: abs_minus_commute)
    also have "\<dots> \<le> (N * u) / (nf * N)" using ne nf N by (intro divide_right_mono) simp_all
    also have "\<dots> = u / nf" using N by simp
    also have "\<dots> \<le> u / 1" using nf u0 by (intro divide_left_mono) simp_all
    finally have "\<bar>(N - nf) / (nf * N)\<bar> \<le> u" by simp
    moreover have "\<bar>P * (1 - P)\<bar> \<le> 1" using W by simp
    ultimately have "\<bar>P * (1 - P) * ((N - nf) / (nf * N))\<bar> \<le> 1 * u" by (intro abs_mult_le)
    then show ?thesis by simp
  qed
  have eq: "w / nf - P * (1 - P) / N = (w - P * (1 - P)) / nf + P * (1 - P) * ((N - nf) / (nf * N))"
    using nf N by (simp add: field_simps)
  have "\<bar>(w - P * (1 - P)) / nf\<bar> + \<bar>P * (1 - P) * ((N - nf) / (nf * N))\<bar> \<le> 4 * u + u"
    using d1 d2 by (rule add_mono)
  then have de: "\<bar>w / nf - P * (1 - P) / N\<bar> \<le> 5 * u"
    unfolding eq by (intro order_trans [OF abs_triangle_ineq]) simp
  have q: "0 \<le> w / nf" "w / nf \<le> 1" using w nf by (simp_all add: divide_le_eq)
  then have "\<bar>w / nf\<bar> \<le> 1" by simp
  then have "\<bar>rnd (w / nf) - w / nf\<bar> \<le> u" unfolding u_def by (rule rnd_error_unit)
  then have "\<bar>rnd (w / nf) - P * (1 - P) / N\<bar> \<le> 6 * u" using de by linarith
  moreover have "var_f k n = rnd (w / nf)"
    by (simp add: var_f_def w_def r_def p_def nf_def N_def)
  ultimately show ?thesis by (simp add: P_def N_def u_def)
qed

lemma wald_variance_range:
  assumes "0 < n" "0 \<le> k" "k \<le> n"
  shows "0 \<le> wald_point_spec k n * (1 - wald_point_spec k n) / real_of_int n"
    and "wald_point_spec k n * (1 - wald_point_spec k n) / real_of_int n \<le> 1"
proof -
  define P where "P = wald_point_spec k n"
  have P: "0 \<le> P" "P \<le> 1" using assms by (simp_all add: P_def wald_point_spec_def)
  have W0: "0 \<le> P * (1 - P)" using P by (intro mult_nonneg_nonneg) simp_all
  have "P * (1 - P) \<le> 1 * 1" using P by (intro mult_mono) simp_all
  then have W1: "P * (1 - P) \<le> 1" by simp
  have N: "1 \<le> real_of_int n" using assms(1) by simp
  show "0 \<le> wald_point_spec k n * (1 - wald_point_spec k n) / real_of_int n"
    using W0 N unfolding P_def by simp
  have "P * (1 - P) / real_of_int n \<le> P * (1 - P) / 1"
    using W0 N by (intro divide_left_mono) simp_all
  then show "wald_point_spec k n * (1 - wald_point_spec k n) / real_of_int n \<le> 1"
    using W1 unfolding P_def by simp
qed

lemma wald_se_range:
  assumes "0 < n" "0 \<le> k" "k \<le> n"
  shows "0 \<le> wald_se_spec k n" "wald_se_spec k n \<le> 1"
  using wald_variance_range [OF assms] by (simp_all add: wald_se_spec_def)

lemma z_f_error:
  assumes "1 / 2 \<le> q_f alpha" "q_f alpha \<le> 1 - 1 / 2 ^ 53"
  shows "\<bar>z_f alpha - std_normal_quantile (q_f alpha)\<bar> \<le> 1 / 2 ^ 49"
proof -
  note b = std_normal_quantile_bound [OF assms]
  have "\<bar>std_normal_quantile (q_f alpha)\<bar> \<le> 16" using b by linarith
  then show ?thesis unfolding z_f_def by (rule rnd_error_16)
qed

lemma rnd_error_gen: "\<bar>rnd x - x\<bar> \<le> \<bar>x\<bar> / 2 ^ 53 + 2 powi (- 1075)"
proof (cases "2 powi (- 1022) \<le> \<bar>x\<bar>")
  case True
  then have "\<bar>rnd x - x\<bar> \<le> \<bar>x\<bar> / 2 ^ 53" by (rule rnd_rel_error)
  moreover have "0 < (2::real) powi (- 1075)" by (rule two_powi_pos)
  ultimately show ?thesis by linarith
next
  case False
  then have "\<bar>x\<bar> \<le> 2 powi (- 1022)" by simp
  then have e: "\<bar>rnd x - x\<bar> \<le> 2 powi (- 1022 - 53)" by (rule rnd_abs_error) simp
  have c: "(- 1022 - 53 :: int) = - 1075" by simp
  have "\<bar>rnd x - x\<bar> \<le> 2 powi (- 1075)" using e unfolding c .
  moreover have "0 \<le> \<bar>x\<bar> / 2 ^ 53" by simp
  ultimately show ?thesis by linarith
qed

lemma sqrt_diff_rel:
  assumes "0 \<le> a" "0 < b"
  shows "\<bar>sqrt a - sqrt b\<bar> \<le> \<bar>a - b\<bar> / sqrt b"
proof -
  have sb: "0 < sqrt b" using assms(2) by simp
  have sa: "0 \<le> sqrt a" using assms(1) by simp
  have "(sqrt a - sqrt b) * (sqrt a + sqrt b) = a - b"
    using assms by (simp add: algebra_simps)
  then have "\<bar>a - b\<bar> = \<bar>sqrt a - sqrt b\<bar> * \<bar>sqrt a + sqrt b\<bar>"
    by (simp only: abs_mult [symmetric])
  also have "\<dots> = \<bar>sqrt a - sqrt b\<bar> * (sqrt a + sqrt b)" using sa sb by simp
  finally have e: "\<bar>a - b\<bar> = \<bar>sqrt a - sqrt b\<bar> * (sqrt a + sqrt b)" .
  have "\<bar>sqrt a - sqrt b\<bar> * sqrt b \<le> \<bar>sqrt a - sqrt b\<bar> * (sqrt a + sqrt b)"
    using sa by (intro mult_left_mono) simp_all
  then have "\<bar>sqrt a - sqrt b\<bar> * sqrt b \<le> \<bar>a - b\<bar>" unfolding e .
  then show ?thesis using sb by (simp add: pos_le_divide_eq)
qed

lemma abs_diff_triangle: "\<bar>a - c\<bar> \<le> \<bar>a - b\<bar> + \<bar>b - c\<bar>" for a b c :: real
  by linarith

lemma overflow_threshold_le: "overflow_threshold \<le> 2 ^ 1024"
  by (simp add: overflow_threshold_def)

lemma var_f_error_rel:
  assumes "0 < n" "real_of_int n < overflow_threshold" "0 \<le> k" "k \<le> n"
  shows "\<bar>var_f k n - wald_point_spec k n * (1 - wald_point_spec k n) / real_of_int n\<bar>
           \<le> 16 / 2 ^ 53 / real_of_int n"
proof -
  define u :: real where "u = 1 / 2 ^ 53"
  define P where "P = wald_point_spec k n"
  define p where "p = p_hat_f k n"
  define r where "r = rnd (1 - p)"
  define w where "w = rnd (p * r)"
  define N where "N = real_of_int n"
  define nf where "nf = rnd N"
  define W where "W = P * (1 - P)"
  note v = assms(1,3,4)
  have u0: "0 \<le> u" "u \<le> 1 / 2" by (simp_all add: u_def)
  have P: "0 \<le> P" "P \<le> 1" using v by (simp_all add: P_def wald_point_spec_def)
  have p: "0 \<le> p" "p \<le> 1" unfolding p_def by (rule p_hat_f_range [OF v])+
  have pe: "\<bar>p - P\<bar> \<le> u" unfolding p_def P_def u_def by (rule p_hat_f_error [OF v])
  have r: "0 \<le> r" "r \<le> 1" using p by (simp_all add: r_def rnd_nonneg rnd_le_one)
  have "\<bar>1 - p\<bar> \<le> 1" using p by simp
  then have "\<bar>r - (1 - p)\<bar> \<le> u" unfolding r_def u_def by (rule rnd_error_unit)
  then have re: "\<bar>r - (1 - P)\<bar> \<le> 2 * u" using pe by linarith
  have pr: "0 \<le> p * r" "p * r \<le> 1"
  proof -
    show "0 \<le> p * r" using p(1) r(1) by (rule mult_nonneg_nonneg)
    have "p * r \<le> 1 * 1" using p r by (intro mult_mono) simp_all
    then show "p * r \<le> 1" by simp
  qed
  have "\<bar>(p - P) * r\<bar> \<le> u * 1" using pe r by (intro abs_mult_le) simp_all
  moreover have "\<bar>P * (r - (1 - P))\<bar> \<le> 1 * (2 * u)" using re P by (intro abs_mult_le) simp_all
  moreover have "p * r - W = (p - P) * r + P * (r - (1 - P))" by (simp add: W_def algebra_simps)
  ultimately have pre: "\<bar>p * r - W\<bar> \<le> 3 * u" by linarith
  have "\<bar>p * r\<bar> \<le> 1" using pr by simp
  then have "\<bar>w - p * r\<bar> \<le> u" unfolding w_def u_def by (rule rnd_error_unit)
  then have we: "\<bar>w - W\<bar> \<le> 4 * u" using pre by linarith
  have w: "0 \<le> w" "w \<le> 1" using pr by (simp_all add: w_def rnd_nonneg rnd_le_one)
  have N: "1 \<le> N" using assms(1) by (simp add: N_def)
  have N0: "0 < N" using N by linarith
  have "(2::real) powi (- 1022) \<le> 1" by (simp add: power_int_minus_divide)
  then have "2 powi (- 1022) \<le> \<bar>N\<bar>" using N by linarith
  then have "\<bar>rnd N - N\<bar> \<le> \<bar>N\<bar> / 2 ^ 53" by (rule rnd_rel_error)
  then have ne: "\<bar>nf - N\<bar> \<le> N * u" using N by (simp add: nf_def u_def)
  have "N * u \<le> N * (1 / 2)" using u0(2) N0 by (intro mult_left_mono) simp_all
  then have nf2: "N / 2 \<le> nf" using ne by linarith
  have nf0: "0 < nf" using nf2 N0 by linarith
  have inv: "1 / nf \<le> 2 / N"
  proof -
    have "1 / nf \<le> 1 / (N / 2)" using nf2 N0 by (intro divide_left_mono) simp_all
    then show ?thesis by simp
  qed
  have W: "0 \<le> W" "W \<le> 1"
  proof -
    show "0 \<le> W" unfolding W_def using P by (intro mult_nonneg_nonneg) simp_all
    have "P * (1 - P) \<le> 1 * 1" using P by (intro mult_mono) simp_all
    then show "W \<le> 1" by (simp add: W_def)
  qed
  have d1: "\<bar>(w - W) / nf\<bar> \<le> 8 * u / N"
  proof -
    have "\<bar>(w - W) / nf\<bar> = \<bar>w - W\<bar> * (1 / nf)" using nf0 by simp
    also have "\<dots> \<le> 4 * u * (2 / N)"
      using we inv nf0 by (intro mult_mono) simp_all
    finally show ?thesis by simp
  qed
  have d2: "\<bar>W * ((N - nf) / (nf * N))\<bar> \<le> 2 * u / N"
  proof -
    have "\<bar>(N - nf) / (nf * N)\<bar> = \<bar>nf - N\<bar> / (nf * N)"
      using nf0 N0 by (simp add: abs_minus_commute)
    also have "\<dots> \<le> (N * u) / (nf * N)" using ne nf0 N0 by (intro divide_right_mono) simp_all
    also have "\<dots> = u * (1 / nf)" using N0 by simp
    also have "\<dots> \<le> u * (2 / N)" using inv u0(1) by (intro mult_left_mono)
    finally have c1: "\<bar>(N - nf) / (nf * N)\<bar> \<le> u * (2 / N)" .
    have c2: "u * (2 / N) = 2 * u / N" by simp
    have "\<bar>(N - nf) / (nf * N)\<bar> \<le> 2 * u / N" using c1 unfolding c2 .
    moreover have "\<bar>W\<bar> \<le> 1" using W by simp
    ultimately have "\<bar>W * ((N - nf) / (nf * N))\<bar> \<le> 1 * (2 * u / N)" by (intro abs_mult_le)
    then show ?thesis by simp
  qed
  have eq: "w / nf - W / N = (w - W) / nf + W * ((N - nf) / (nf * N))"
    using nf0 N0 by (simp add: field_simps)
  have "\<bar>(w - W) / nf\<bar> + \<bar>W * ((N - nf) / (nf * N))\<bar> \<le> 8 * u / N + 2 * u / N"
    using d1 d2 by (rule add_mono)
  then have de: "\<bar>w / nf - W / N\<bar> \<le> 10 * u / N"
    unfolding eq by (intro order_trans [OF abs_triangle_ineq]) (simp add: add_divide_distrib)
  have q: "0 \<le> w / nf" using w nf0 by simp
  have q2: "w / nf \<le> 2 / N"
  proof -
    have "w * (1 / nf) \<le> 1 * (2 / N)" using w inv nf0 by (intro mult_mono) simp_all
    then show ?thesis by simp
  qed
  have tiny: "2 powi (- 1075) \<le> 4 * u / N"
  proof -
    have "N \<le> 2 ^ 1024" using assms(2) overflow_threshold_le by (simp add: N_def)
    then have "4 * u / 2 ^ 1024 \<le> 4 * u / N" using N0 u0 by (intro divide_left_mono) simp_all
    moreover have "(2::real) powi (- 1075) = 4 * u / 2 ^ 1024"
      by (simp add: u_def power_int_minus_divide)
    ultimately show ?thesis by simp
  qed
  have "\<bar>rnd (w / nf) - w / nf\<bar> \<le> \<bar>w / nf\<bar> / 2 ^ 53 + 2 powi (- 1075)" by (rule rnd_error_gen)
  moreover have "\<bar>w / nf\<bar> / 2 ^ 53 \<le> (2 / N) / 2 ^ 53"
    using q q2 by (intro divide_right_mono) simp_all
  moreover have "(2 / N) / 2 ^ 53 = 2 * u / N" by (simp add: u_def)
  ultimately have "\<bar>rnd (w / nf) - w / nf\<bar> \<le> 2 * u / N + 4 * u / N" using tiny by linarith
  then have "\<bar>rnd (w / nf) - w / nf\<bar> + \<bar>w / nf - W / N\<bar> \<le> (2 * u / N + 4 * u / N) + 10 * u / N"
    using de by (rule add_mono)
  moreover have "\<bar>rnd (w / nf) - W / N\<bar> \<le> \<bar>rnd (w / nf) - w / nf\<bar> + \<bar>w / nf - W / N\<bar>"
    by (rule abs_diff_triangle)
  moreover have "(2 * u / N + 4 * u / N) + 10 * u / N = 16 * u / N"
    by (simp add: add_divide_distrib [symmetric])
  ultimately have "\<bar>rnd (w / nf) - W / N\<bar> \<le> 16 * u / N" by linarith
  moreover have "var_f k n = rnd (w / nf)"
    by (simp add: var_f_def w_def r_def p_def nf_def N_def)
  ultimately show ?thesis by (simp add: P_def N_def u_def W_def)
qed

lemma wald_variance_lower:
  assumes "0 < k" "k < n"
  shows "1 / (4 * (real_of_int n)\<^sup>2)
           \<le> wald_point_spec k n * (1 - wald_point_spec k n) / real_of_int n"
proof -
  define K where "K = real_of_int k"
  define N where "N = real_of_int n"
  have "0 \<le> (k - 1) * (n - k - 1)" using assms by (intro mult_nonneg_nonneg) simp_all
  then have "n - 1 \<le> k * (n - k)" by (simp add: algebra_simps)
  moreover have "2 \<le> n" using assms by linarith
  ultimately have "n \<le> 4 * (k * (n - k))" by linarith
  then have "real_of_int n \<le> real_of_int (4 * (k * (n - k)))" by (simp only: of_int_le_iff)
  then have i: "N \<le> 4 * (K * (N - K))" by (simp add: K_def N_def)
  have N0: "0 < N" using assms by (simp add: N_def)
  have "K / N * (1 - K / N) / N = K * (N - K) / (N * N * N)"
    using N0 by (simp add: field_simps)
  moreover have "1 / (4 * N\<^sup>2) = (N / 4) / (N * N * N)"
    using N0 by (simp add: field_simps power2_eq_square)
  moreover have "(N / 4) / (N * N * N) \<le> K * (N - K) / (N * N * N)"
    using i N0 by (intro divide_right_mono) simp_all
  ultimately show ?thesis by (simp add: wald_point_spec_def K_def N_def)
qed

lemma se_f_error:
  assumes "0 < n" "real_of_int n < overflow_threshold" "0 \<le> k" "k \<le> n"
  shows "\<bar>se_f k n - wald_se_spec k n\<bar> \<le> 33 / 2 ^ 53"
proof (cases "k = 0 \<or> k = n")
  case True
  then have "se_f k n = 0" "wald_se_spec k n = 0"
    using assms(1) se_f_at_ends [of n] by (auto simp: wald_se_spec_def wald_point_spec_def)
  then show ?thesis by simp
next
  case False
  then have k: "0 < k" "k < n" using assms by linarith+
  note v = assms(1,3,4)
  define N where "N = real_of_int n"
  define V where "V = wald_point_spec k n * (1 - wald_point_spec k n) / real_of_int n"
  have N0: "0 < N" using assms(1) by (simp add: N_def)
  have lo: "1 / (4 * N\<^sup>2) \<le> V" unfolding N_def V_def by (rule wald_variance_lower [OF k])
  have "(1 / (2 * N))\<^sup>2 = 1 / (4 * N\<^sup>2)" by (simp add: power2_eq_square)
  then have "(1 / (2 * N))\<^sup>2 \<le> V" using lo by simp
  then have s: "1 / (2 * N) \<le> sqrt V" by (rule real_le_rsqrt)
  have "0 < 1 / (4 * N\<^sup>2)" using N0 by simp
  then have V0: "0 < V" using lo by linarith
  have s0: "0 < sqrt V" using V0 by simp
  note r = var_f_range [OF v]
  have e: "\<bar>var_f k n - V\<bar> \<le> 16 / 2 ^ 53 / N"
    unfolding V_def N_def by (rule var_f_error_rel [OF assms])
  have "\<bar>sqrt (var_f k n) - sqrt V\<bar> \<le> \<bar>var_f k n - V\<bar> / sqrt V"
    using r(1) V0 by (rule sqrt_diff_rel)
  also have "\<dots> \<le> (16 / 2 ^ 53 / N) / sqrt V"
    using e s0 by (intro divide_right_mono) simp_all
  also have "\<dots> \<le> (16 / 2 ^ 53 / N) / (1 / (2 * N))"
  proof -
    have "0 < 1 / (2 * N)" using N0 by simp
    with s0 have "0 < sqrt V * (1 / (2 * N))" by (rule mult_pos_pos)
    moreover have "0 \<le> 16 / 2 ^ 53 / N" using N0 by simp
    ultimately show ?thesis using s by (intro divide_left_mono)
  qed
  also have "\<dots> = 32 / 2 ^ 53" using N0 by simp
  finally have a: "\<bar>sqrt (var_f k n) - wald_se_spec k n\<bar> \<le> 32 / 2 ^ 53"
    by (simp add: wald_se_spec_def V_def)
  have "sqrt (var_f k n) \<le> 1" using r by simp
  moreover have "0 \<le> sqrt (var_f k n)" using r(1) by simp
  ultimately have "\<bar>sqrt (var_f k n)\<bar> \<le> 1" by linarith
  then have "\<bar>se_f k n - sqrt (var_f k n)\<bar> \<le> 1 / 2 ^ 53"
    unfolding se_f_def by (rule rnd_error_unit)
  moreover have "(1::real) / 2 ^ 53 + 32 / 2 ^ 53 = 33 / 2 ^ 53" by simp
  ultimately show ?thesis using a by linarith
qed

lemma hw_f_error:
  assumes "0 < n" "real_of_int n < overflow_threshold" "0 \<le> k" "k \<le> n"
    and "1 / 2 \<le> q_f alpha" "q_f alpha \<le> 1 - 1 / 2 ^ 53"
  shows "\<bar>hw_f k n alpha - wald_half_width_at k n (q_f alpha)\<bar> \<le> 362 / 2 ^ 53"
proof -
  define z where "z = z_f alpha"
  define Z where "Z = std_normal_quantile (q_f alpha)"
  define s where "s = se_f k n"
  define S where "S = wald_se_spec k n"
  note v = assms(1,3,4)
  have z: "0 \<le> z" "z \<le> 10" unfolding z_def by (rule z_f_range [OF assms(5,6)])+
  have s: "0 \<le> s" "s \<le> 1" unfolding s_def by (rule se_f_range [OF v])+
  have S: "0 \<le> S" "S \<le> 1" unfolding S_def by (rule wald_se_range [OF v])+
  have ze: "\<bar>z - Z\<bar> \<le> 1 / 2 ^ 49" unfolding z_def Z_def by (rule z_f_error [OF assms(5,6)])
  have se: "\<bar>s - S\<bar> \<le> 33 / 2 ^ 53" unfolding s_def S_def by (rule se_f_error [OF assms(1-4)])
  have "\<bar>z * (s - S)\<bar> \<le> 10 * (33 / 2 ^ 53)" using z se by (intro abs_mult_le) simp_all
  moreover have "\<bar>(z - Z) * S\<bar> \<le> 1 / 2 ^ 49 * 1" using ze S by (intro abs_mult_le) simp_all
  moreover have "z * s - Z * S = z * (s - S) + (z - Z) * S" by (simp add: algebra_simps)
  ultimately have pe: "\<bar>z * s - Z * S\<bar> \<le> 10 * (33 / 2 ^ 53) + 1 / 2 ^ 49" by linarith
  have "0 \<le> z * s" using z(1) s(1) by (rule mult_nonneg_nonneg)
  moreover have "z * s \<le> 10 * 1" using z s by (intro mult_mono) simp_all
  ultimately have "\<bar>z * s\<bar> \<le> 16" by simp
  then have "\<bar>rnd (z * s) - z * s\<bar> \<le> 1 / 2 ^ 49" by (rule rnd_error_16)
  moreover have "10 * ((33::real) / 2 ^ 53) + 1 / 2 ^ 49 + 1 / 2 ^ 49 = 362 / 2 ^ 53" by simp
  ultimately have "\<bar>rnd (z * s) - Z * S\<bar> \<le> 362 / 2 ^ 53" using pe by linarith
  then show ?thesis
    by (simp add: hw_f_def wald_half_width_at_def z_def s_def Z_def S_def)
qed

lemma bounds_error:
  assumes "0 < n" "real_of_int n < overflow_threshold" "0 \<le> k" "k \<le> n"
    and "1 / 2 \<le> q_f alpha" "q_f alpha \<le> 1 - 1 / 2 ^ 53"
  shows "\<bar>rnd (p_hat_f k n - hw_f k n alpha)
           - (wald_point_spec k n - wald_half_width_at k n (q_f alpha))\<bar> \<le> 1 / 2 ^ 44"
    and "\<bar>rnd (p_hat_f k n + hw_f k n alpha)
           - (wald_point_spec k n + wald_half_width_at k n (q_f alpha))\<bar> \<le> 1 / 2 ^ 44"
proof -
  note v = assms(1,3,4)
  note h = hw_f_range [OF v assms(5,6)] and p = p_hat_f_range [OF v]
  note pe = p_hat_f_error [OF v] and he = hw_f_error [OF assms]
  let ?p = "p_hat_f k n" and ?h = "hw_f k n alpha"
  have b: "\<bar>?p - ?h\<bar> \<le> 16" "\<bar>?p + ?h\<bar> \<le> 16" using h p by linarith+
  have c: "(1::real) / 2 ^ 49 + 1 / 2 ^ 53 + 362 / 2 ^ 53 \<le> 1 / 2 ^ 44" by simp
  have "\<bar>rnd (?p - ?h) - (?p - ?h)\<bar> \<le> 1 / 2 ^ 49" using b(1) by (rule rnd_error_16)
  then show "\<bar>rnd (?p - ?h) - (wald_point_spec k n - wald_half_width_at k n (q_f alpha))\<bar>
      \<le> 1 / 2 ^ 44"
    using pe he c by linarith
  have "\<bar>rnd (?p + ?h) - (?p + ?h)\<bar> \<le> 1 / 2 ^ 49" using b(2) by (rule rnd_error_16)
  then show "\<bar>rnd (?p + ?h) - (wald_point_spec k n + wald_half_width_at k n (q_f alpha))\<bar>
      \<le> 1 / 2 ^ 44"
    using pe he c by linarith
qed

lemma default_alpha_Fin: "default_alpha = Fin (rnd (5 / 100))"
  by (simp add: default_alpha_def fl_small)

lemma default_alpha_float:
  "rnd (rnd (5 / 100)) = rnd (5 / 100)" "1 / 2 ^ 53 < rnd (5 / 100)" "rnd (5 / 100) < 1"
  "\<bar>rnd (5 / 100) - 5 / 100\<bar> \<le> 1 / 2 ^ 53"
proof -
  show "rnd (rnd (5 / 100)) = rnd (5 / 100)" by (rule rnd_idem)
  have "\<bar>5 / 100 :: real\<bar> \<le> 1" by simp
  then show e: "\<bar>rnd (5 / 100) - 5 / 100\<bar> \<le> 1 / 2 ^ 53" by (rule rnd_error_unit)
  have "(1::real) / 2 ^ 53 < 4 / 100 - 1 / 2 ^ 53" by simp
  then show "1 / 2 ^ 53 < rnd (5 / 100)" using e by linarith
  have "(6::real) / 100 + 1 / 2 ^ 53 < 1" by simp
  then show "rnd (5 / 100) < 1" using e by linarith
qed

lemma q_f_default:
  "1 / 2 \<le> q_f (rnd (5 / 100))" "q_f (rnd (5 / 100)) \<le> 1 - 1 / 2 ^ 53"
  "\<bar>q_f (rnd (5 / 100)) - 975 / 1000\<bar> \<le> 1 / 10 ^ 9"
proof -
  note q = q_f_range [OF default_alpha_float(1-3)]
  show "1 / 2 \<le> q_f (rnd (5 / 100))" "q_f (rnd (5 / 100)) \<le> 1 - 1 / 2 ^ 53"
    by (rule q(2) q(3))+
  let ?a = "rnd (5 / 100)"
  have "\<bar>1 - ?a / 2\<bar> \<le> 1" using default_alpha_float(2,3) by (simp add: abs_le_iff)
  then have "\<bar>rnd (1 - ?a / 2) - (1 - ?a / 2)\<bar> \<le> 1 / 2 ^ 53" by (rule rnd_error_unit)
  moreover have "(2::real) / 2 ^ 53 \<le> 1 / 10 ^ 9" by simp
  ultimately show "\<bar>q_f ?a - 975 / 1000\<bar> \<le> 1 / 10 ^ 9"
    unfolding q(1) using default_alpha_float(4) by linarith
qed

lemma z_f_default:
  "19598 / 10000 - 1 / 2 ^ 49 \<le> z_f (rnd (5 / 100))"
  "z_f (rnd (5 / 100)) \<le> 195999 / 100000 + 1 / 2 ^ 49"
  using z_f_error [OF q_f_default(1,2)] std_normal_quantile_near_975 [OF q_f_default(3)]
  by linarith+

lemma se_f_bracket:
  assumes "0 < n" "0 \<le> k" "k \<le> n" "0 \<le> b"
    and "a\<^sup>2 + 6 / 2 ^ 53 \<le> wald_point_spec k n * (1 - wald_point_spec k n) / real_of_int n"
    and "wald_point_spec k n * (1 - wald_point_spec k n) / real_of_int n + 6 / 2 ^ 53 \<le> b\<^sup>2"
  shows "a - 1 / 2 ^ 53 \<le> se_f k n" "se_f k n \<le> b + 1 / 2 ^ 53"
proof -
  note v = assms(1-3)
  note e = var_f_error [OF v] and r = var_f_range [OF v]
  have "a\<^sup>2 \<le> var_f k n" using e assms(5) by linarith
  then have l: "a \<le> sqrt (var_f k n)" by (rule real_le_rsqrt)
  have "var_f k n \<le> b\<^sup>2" using e assms(6) by linarith
  then have u: "sqrt (var_f k n) \<le> b" using assms(4) by (intro real_le_lsqrt)
  have "sqrt (var_f k n) \<le> 1" using r by simp
  moreover have "0 \<le> sqrt (var_f k n)" using r(1) by simp
  ultimately have "\<bar>sqrt (var_f k n)\<bar> \<le> 1" by linarith
  then have "\<bar>se_f k n - sqrt (var_f k n)\<bar> \<le> 1 / 2 ^ 53"
    unfolding se_f_def by (rule rnd_error_unit)
  then show "a - 1 / 2 ^ 53 \<le> se_f k n" "se_f k n \<le> b + 1 / 2 ^ 53"
    using l u by linarith+
qed

lemma hw_f_bracket:
  assumes "0 < n" "0 \<le> k" "k \<le> n" "1 / 2 \<le> q_f alpha" "q_f alpha \<le> 1 - 1 / 2 ^ 53"
    and "0 \<le> zl" "zl \<le> z_f alpha" "z_f alpha \<le> zu"
    and "0 \<le> sl" "sl \<le> se_f k n" "se_f k n \<le> su"
  shows "zl * sl - 1 / 2 ^ 49 \<le> hw_f k n alpha" "hw_f k n alpha \<le> zu * su + 1 / 2 ^ 49"
proof -
  note z = z_f_range [OF assms(4,5)] and s = se_f_range [OF assms(1-3)]
  have l: "zl * sl \<le> z_f alpha * se_f k n"
    using assms(6,7,9,10) z(1) by (intro mult_mono) simp_all
  have u: "z_f alpha * se_f k n \<le> zu * su"
    using assms(8,11) z(1) s(1) by (intro mult_mono) linarith+
  have "0 \<le> z_f alpha * se_f k n" using z(1) s(1) by (rule mult_nonneg_nonneg)
  moreover have "z_f alpha * se_f k n \<le> 10 * 1" using z s by (intro mult_mono) simp_all
  ultimately have "\<bar>z_f alpha * se_f k n\<bar> \<le> 16" by simp
  then have "\<bar>hw_f k n alpha - z_f alpha * se_f k n\<bar> \<le> 1 / 2 ^ 49"
    unfolding hw_f_def by (rule rnd_error_16)
  then show "zl * sl - 1 / 2 ^ 49 \<le> hw_f k n alpha" "hw_f k n alpha \<le> zu * su + 1 / 2 ^ 49"
    using l u by linarith+
qed

lemma bounds_bracket:
  assumes "0 < n" "0 \<le> k" "k \<le> n" "1 / 2 \<le> q_f alpha" "q_f alpha \<le> 1 - 1 / 2 ^ 53"
    and "hl \<le> hw_f k n alpha" "hw_f k n alpha \<le> hu"
  shows "wald_point_spec k n - hu - 1 / 2 ^ 48 \<le> rnd (p_hat_f k n - hw_f k n alpha)"
    and "rnd (p_hat_f k n - hw_f k n alpha) \<le> wald_point_spec k n - hl + 1 / 2 ^ 48"
    and "wald_point_spec k n + hl - 1 / 2 ^ 48 \<le> rnd (p_hat_f k n + hw_f k n alpha)"
    and "rnd (p_hat_f k n + hw_f k n alpha) \<le> wald_point_spec k n + hu + 1 / 2 ^ 48"
proof -
  note v = assms(1-3)
  note h = hw_f_range [OF assms(1-5)] and p = p_hat_f_range [OF v]
  note pe = p_hat_f_error [OF v]
  let ?p = "p_hat_f k n" and ?h = "hw_f k n alpha"
  have b: "\<bar>?p - ?h\<bar> \<le> 16" "\<bar>?p + ?h\<bar> \<le> 16" using h p by linarith+
  have c: "(1::real) / 2 ^ 49 + 1 / 2 ^ 53 \<le> 1 / 2 ^ 48" by simp
  have m: "\<bar>rnd (?p - ?h) - (?p - ?h)\<bar> \<le> 1 / 2 ^ 49" using b(1) by (rule rnd_error_16)
  show "wald_point_spec k n - hu - 1 / 2 ^ 48 \<le> rnd (?p - ?h)"
    using m pe c assms(7) by linarith
  show "rnd (?p - ?h) \<le> wald_point_spec k n - hl + 1 / 2 ^ 48"
    using m pe c assms(6) by linarith
  have a: "\<bar>rnd (?p + ?h) - (?p + ?h)\<bar> \<le> 1 / 2 ^ 49" using b(2) by (rule rnd_error_16)
  show "wald_point_spec k n + hl - 1 / 2 ^ 48 \<le> rnd (?p + ?h)"
    using a pe c assms(6) by linarith
  show "rnd (?p + ?h) \<le> wald_point_spec k n + hu + 1 / 2 ^ 48"
    using a pe c assms(7) by linarith
qed

lemma proportion_ci_default:
  assumes "0 < n" "real_of_int n < overflow_threshold" "0 \<le> k" "k \<le> n"
  shows "proportion_ci k n default_alpha =
    Inr (Fin (p_hat_f k n), Fin (rnd (p_hat_f k n - hw_f k n (rnd (5 / 100)))),
         Fin (rnd (p_hat_f k n + hw_f k n (rnd (5 / 100)))))"
  unfolding default_alpha_Fin
  by (rule proportion_ci_regular [OF assms default_alpha_float(1-3)])

lemma default_bounds_bracket:
  assumes "0 < n" "0 \<le> k" "k \<le> n" "0 \<le> b" "1 / 2 ^ 53 \<le> a"
    and "a\<^sup>2 + 6 / 2 ^ 53 \<le> wald_point_spec k n * (1 - wald_point_spec k n) / real_of_int n"
    and "wald_point_spec k n * (1 - wald_point_spec k n) / real_of_int n + 6 / 2 ^ 53 \<le> b\<^sup>2"
  shows "wald_point_spec k n - (195999 / 100000 + 1 / 2 ^ 49) * (b + 1 / 2 ^ 53) - 1 / 2 ^ 47
           \<le> rnd (p_hat_f k n - hw_f k n (rnd (5 / 100)))"
    and "rnd (p_hat_f k n - hw_f k n (rnd (5 / 100)))
           \<le> wald_point_spec k n - (19598 / 10000 - 1 / 2 ^ 49) * (a - 1 / 2 ^ 53) + 1 / 2 ^ 47"
    and "wald_point_spec k n + (19598 / 10000 - 1 / 2 ^ 49) * (a - 1 / 2 ^ 53) - 1 / 2 ^ 47
           \<le> rnd (p_hat_f k n + hw_f k n (rnd (5 / 100)))"
    and "rnd (p_hat_f k n + hw_f k n (rnd (5 / 100)))
           \<le> wald_point_spec k n + (195999 / 100000 + 1 / 2 ^ 49) * (b + 1 / 2 ^ 53) + 1 / 2 ^ 47"
proof -
  note v = assms(1-3)
  note s = se_f_bracket [OF v assms(4,6,7)]
  have zl: "(0::real) \<le> 19598 / 10000 - 1 / 2 ^ 49" by simp
  have sl: "0 \<le> a - 1 / 2 ^ 53" using assms(5) by simp
  note h = hw_f_bracket [OF v q_f_default(1,2) zl z_f_default sl s]
  note b = bounds_bracket [OF v q_f_default(1,2) h]
  have c: "(1::real) / 2 ^ 49 + 1 / 2 ^ 48 \<le> 1 / 2 ^ 47" by simp
  show "wald_point_spec k n - (195999 / 100000 + 1 / 2 ^ 49) * (b + 1 / 2 ^ 53) - 1 / 2 ^ 47
           \<le> rnd (p_hat_f k n - hw_f k n (rnd (5 / 100)))"
    using b(1) c by linarith
  show "rnd (p_hat_f k n - hw_f k n (rnd (5 / 100)))
           \<le> wald_point_spec k n - (19598 / 10000 - 1 / 2 ^ 49) * (a - 1 / 2 ^ 53) + 1 / 2 ^ 47"
    using b(2) c by linarith
  show "wald_point_spec k n + (19598 / 10000 - 1 / 2 ^ 49) * (a - 1 / 2 ^ 53) - 1 / 2 ^ 47
           \<le> rnd (p_hat_f k n + hw_f k n (rnd (5 / 100)))"
    using b(3) c by linarith
  show "rnd (p_hat_f k n + hw_f k n (rnd (5 / 100)))
           \<le> wald_point_spec k n + (195999 / 100000 + 1 / 2 ^ 49) * (b + 1 / 2 ^ 53) + 1 / 2 ^ 47"
    using b(4) c by linarith
qed

lemma n_small: "real_of_int 10000 < overflow_threshold" "real_of_int 2 < overflow_threshold"
  by (simp_all add: overflow_threshold_def)

lemma unclipped_example:
  "\<exists>lo hi. proportion_ci 1 2 default_alpha = Inr (Fin (1 / 2), Fin lo, Fin hi) \<and> lo < 0 \<and> 1 < hi"
proof -
  have r: "proportion_ci 1 2 default_alpha =
    Inr (Fin (1 / 2), Fin (rnd (p_hat_f 1 2 - hw_f 1 2 (rnd (5 / 100)))),
         Fin (rnd (p_hat_f 1 2 + hw_f 1 2 (rnd (5 / 100)))))"
    using proportion_ci_default [of 2 1] n_small(2) by (simp add: p_hat_f_def rnd_half)
  have b: "rnd (p_hat_f 1 2 - hw_f 1 2 (rnd (5 / 100)))
           \<le> wald_point_spec 1 2 - (19598 / 10000 - 1 / 2 ^ 49) * (1 / 3 - 1 / 2 ^ 53) + 1 / 2 ^ 47"
    "wald_point_spec 1 2 + (19598 / 10000 - 1 / 2 ^ 49) * (1 / 3 - 1 / 2 ^ 53) - 1 / 2 ^ 47
           \<le> rnd (p_hat_f 1 2 + hw_f 1 2 (rnd (5 / 100)))"
    by (rule default_bounds_bracket(2,3) [where a = "1 / 3" and b = "1 / 2"];
        simp add: wald_point_spec_def power2_eq_square)+
  have "wald_point_spec 1 2 - (19598 / 10000 - 1 / 2 ^ 49) * (1 / 3 - 1 / 2 ^ 53) + 1 / 2 ^ 47 < 0"
    by (simp add: wald_point_spec_def)
  moreover have "1 < wald_point_spec 1 2 + (19598 / 10000 - 1 / 2 ^ 49) * (1 / 3 - 1 / 2 ^ 53) - 1 / 2 ^ 47"
    by (simp add: wald_point_spec_def)
  ultimately have "rnd (p_hat_f 1 2 - hw_f 1 2 (rnd (5 / 100))) < 0"
    "1 < rnd (p_hat_f 1 2 + hw_f 1 2 (rnd (5 / 100)))"
    using b by linarith+
  then show ?thesis using r by blast
qed

lemma rnd_third: "rnd (1 / 3) \<noteq> 1 / 3"
proof
  assume a: "rnd (1 / 3) = 1 / 3"
  have e: "expo (1 / 3) = - 54" by (intro expo_eq) (simp_all add: power_int_minus_divide)
  define M where "M = rne (1 / 3 / 2 powi (- 54))"
  have "rnd (1 / 3) = of_int M * 2 powi (- 54)" by (simp add: rnd_def e M_def)
  then have "real_of_int M / 2 ^ 54 = 1 / 3" using a by (simp add: power_int_minus_divide)
  then have "real_of_int (3 * M) = real_of_int (2 ^ 54)" by (simp add: field_simps)
  then have "3 * M = 2 ^ 54" by (simp only: of_int_eq_iff)
  then have "(3 * M) mod 3 = (2 ^ 54 :: int) mod 3" by simp
  then show False by simp
qed


section \<open>The interval estimator on its domain\<close>

text \<open>
  The domain on which the estimator computes an interval: \<open>0 \<le> k \<le> n\<close>, \<open>n > 0\<close> small enough
  to be converted to a float (\<open>n < 2^1024 - 2^970\<close>, the value \<open>overflow_threshold\<close>), and
  \<open>alpha\<close> a float (\<open>rnd alpha = alpha\<close>) with \<open>2^-53 < alpha < 1\<close>.  For a positive
  \<open>alpha \<le> 2^-53\<close> the float \<open>1 - alpha / 2\<close> is \<open>1.0\<close>, where \<open>norm.ppf\<close> is infinite.
\<close>

text \<open>
  C3 (as stated it fails).  For \<open>alpha = 2^-70\<close>, which lies in \<open>(0, 1)\<close>, the float
  \<open>1 - alpha / 2\<close> is \<open>1.0\<close>, the quantile is infinite and so are both bounds.  For
  \<open>n = 2^1024\<close> the conversion of \<open>n\<close> to a float raises \<open>OverflowError\<close>.  And the point
  estimate is a float: for \<open>k = 1\<close>, \<open>n = 3\<close> it is the float nearest to \<open>1/3\<close>, which is
  not \<open>1/3\<close>.
\<close>

theorem proportion_ci_tiny_alpha_unbounded:
  "proportion_ci 1 2 (Fin (1 / 2 ^ 70)) = Inr (Fin (1 / 2), MInf, PInf)
 \<and> proportion_ci 1 (2 ^ 1024) default_alpha = Inl OverflowError
 \<and> (\<exists>lo hi. proportion_ci 1 3 default_alpha = Inr (Fin (rnd (1 / 3)), lo, hi))
 \<and> rnd (1 / 3) \<noteq> 1 / 3"
proof -
  have d: "py_int_truediv 1 2 = Inr (Fin (1 / 2))"
    using py_int_truediv_valid [of 2 1] by (simp add: p_hat_f_def rnd_half)
  note t = ppf_at_tiny_alpha [of "1 / 2 ^ 70"]
  have a: "py_float_truediv (Fin (1 / 2 ^ 70)) (Fin 2) = Inr (Fin (rnd (1 / 2 ^ 70 / 2)))"
    by (rule t(1)) simp_all
  have z: "norm_ppf (f64_sub (Fin 1) (Fin (rnd (1 / 2 ^ 70 / 2)))) = PInf"
    by (rule t(2)) simp_all
  have n: "py_float_of_int 2 = Inr (Fin 2)"
    using py_float_of_int_valid [of 2] rnd_int_small [of 2]
    by (simp add: overflow_threshold_def)
  have q: "f64_sub (Fin 1) (Fin (1 / 2)) = Fin (1 / 2)"
    by (simp add: f64_sub_Fin fl_small rnd_half)
  have w: "f64_mul (Fin (1 / 2)) (Fin (1 / 2)) = Fin (1 / 4)"
    by (simp add: f64_mul_Fin fl_small rnd_quarter)
  have e8: "rnd (1 / 8) = 1 / 8"
    using rnd_pow2 [of "- 3"] by (simp add: power_int_minus_divide)
  have v: "py_float_truediv (Fin (1 / 4)) (Fin 2) = Inr (Fin (1 / 8))"
    by (simp add: py_float_truediv_def f64_div_Fin fl_small e8)
  obtain s where s: "f64_sqrt (Fin (1 / 8)) = Fin s" "0 < s"
  proof -
    have "(1 / 4)\<^sup>2 \<le> (1 / 8 :: real)" by (simp add: power2_eq_square)
    then have l: "1 / 4 \<le> sqrt (1 / 8 :: real)" by (rule real_le_rsqrt)
    have u: "sqrt (1 / 8 :: real) \<le> 1" by (rule real_le_lsqrt) simp_all
    have "rnd (1 / 4) \<le> rnd (sqrt (1 / 8))" using l by (rule rnd_mono)
    then have "0 < rnd (sqrt (1 / 8))" by (simp add: rnd_quarter)
    moreover have "\<bar>sqrt (1 / 8 :: real)\<bar> \<le> 16" using l u by linarith
    then have "f64_sqrt (Fin (1 / 8)) = Fin (rnd (sqrt (1 / 8)))"
      by (simp add: f64_sqrt_Fin fl_small)
    ultimately show ?thesis using that by blast
  qed
  have m: "f64_mul PInf (Fin s) = PInf" using s(2) by (simp add: f64_mul_def)
  have e: "f64_sub (Fin (1 / 2)) PInf = MInf" "f64_add (Fin (1 / 2)) PInf = PInf"
    by (simp_all add: f64_sub_def f64_add_def np_sub_def)
  have "proportion_ci 1 2 (Fin (1 / 2 ^ 70)) = Inr (Fin (1 / 2), MInf, PInf)"
    unfolding proportion_ci_def
    by (simp only: d a z n q w v s(1) m e sum.case Let_def)
  moreover have "proportion_ci 1 (2 ^ 1024) default_alpha = Inl OverflowError"
    by (rule proportion_ci_overflow) (simp_all add: overflow_threshold_def)
  moreover have "\<exists>lo hi. proportion_ci 1 3 default_alpha = Inr (Fin (rnd (1 / 3)), lo, hi)"
    using proportion_ci_returns [of 3 1 default_alpha] by (simp add: overflow_threshold_def)
  ultimately show ?thesis using rnd_third by blast
qed

text \<open>
  C3 (amended).  For \<open>0 \<le> k \<le> n\<close>, \<open>n > 0\<close> small enough to be converted to a float and a
  float \<open>alpha\<close> with \<open>2^-53 < alpha < 1\<close>, the estimator returns the float nearest to
  \<open>k / n\<close> as point estimate, and bounds within \<open>2^-44\<close> of \<open>p - z se\<close> and \<open>p + z se\<close>, where
  \<open>p = k / n\<close>, \<open>se = sqrt (p (1 - p) / n)\<close> and \<open>z\<close> is the point where the standard normal
  distribution function takes the value \<open>q\<close>, the float nearest to \<open>1 - alpha / 2\<close>.  The
  bounds are not clipped: for \<open>k = 1\<close>, \<open>n = 2\<close> and the default \<open>alpha\<close> the lower bound is
  below \<open>0\<close> and the upper bound above \<open>1\<close>.
\<close>

theorem proportion_ci_is_wald_interval:
  assumes "0 < n" "real_of_int n < overflow_threshold" "0 \<le> k" "k \<le> n"
    and "rnd alpha = alpha" "1 / 2 ^ 53 < alpha" "alpha < 1"
  shows "\<exists>p lo hi q. proportion_ci k n (Fin alpha) = Inr (Fin p, Fin lo, Fin hi)
      \<and> q = rnd (1 - alpha / 2) \<and> \<bar>q - (1 - alpha / 2)\<bar> \<le> 1 / 2 ^ 53
      \<and> std_normal_cdf (std_normal_quantile q) = q
      \<and> p = rnd (real_of_int k / real_of_int n)
      \<and> \<bar>p - real_of_int k / real_of_int n\<bar> \<le> 1 / 2 ^ 53
      \<and> \<bar>lo - (real_of_int k / real_of_int n - std_normal_quantile q
            * sqrt (real_of_int k / real_of_int n * (1 - real_of_int k / real_of_int n)
                / real_of_int n))\<bar> \<le> 1 / 2 ^ 44
      \<and> \<bar>hi - (real_of_int k / real_of_int n + std_normal_quantile q
            * sqrt (real_of_int k / real_of_int n * (1 - real_of_int k / real_of_int n)
                / real_of_int n))\<bar> \<le> 1 / 2 ^ 44
      \<and> (\<exists>lo hi. proportion_ci 1 2 default_alpha = Inr (Fin (1 / 2), Fin lo, Fin hi)
            \<and> lo < 0 \<and> 1 < hi)"
proof -
  note v = assms(1,3,4)
  note q = q_f_range [OF assms(5-7)]
  note b = bounds_error [OF assms(1-4) q(2,3)]
  have "\<bar>1 - alpha / 2\<bar> \<le> 1" using assms(6,7) by (simp add: abs_le_iff)
  then have qe: "\<bar>rnd (1 - alpha / 2) - (1 - alpha / 2)\<bar> \<le> 1 / 2 ^ 53" by (rule rnd_error_unit)
  have "0 < q_f alpha" "q_f alpha < 1" using q(2,3) by simp_all
  then have c: "std_normal_cdf (std_normal_quantile (q_f alpha)) = q_f alpha"
    by (rule std_normal_cdf_quantile)
  have pe: "\<bar>p_hat_f k n - real_of_int k / real_of_int n\<bar> \<le> 1 / 2 ^ 53"
    using p_hat_f_error [OF v] by (simp add: wald_point_spec_def)
  define L where "L = rnd (p_hat_f k n - hw_f k n alpha)"
  define H where "H = rnd (p_hat_f k n + hw_f k n alpha)"
  have "proportion_ci k n (Fin alpha)
          = Inr (Fin (rnd (real_of_int k / real_of_int n)), Fin L, Fin H)"
    using proportion_ci_regular [OF assms] by (simp only: p_hat_f_def L_def H_def)
  moreover have "\<bar>L - (real_of_int k / real_of_int n - std_normal_quantile (rnd (1 - alpha / 2))
            * sqrt (real_of_int k / real_of_int n * (1 - real_of_int k / real_of_int n)
                / real_of_int n))\<bar> \<le> 1 / 2 ^ 44"
    using b(1) unfolding wald_half_width_at_def wald_se_spec_def wald_point_spec_def q(1) L_def .
  moreover have "\<bar>H - (real_of_int k / real_of_int n + std_normal_quantile (rnd (1 - alpha / 2))
            * sqrt (real_of_int k / real_of_int n * (1 - real_of_int k / real_of_int n)
                / real_of_int n))\<bar> \<le> 1 / 2 ^ 44"
    using b(2) unfolding wald_half_width_at_def wald_se_spec_def wald_point_spec_def q(1) H_def .
  moreover have "std_normal_cdf (std_normal_quantile (rnd (1 - alpha / 2))) = rnd (1 - alpha / 2)"
    using c unfolding q(1) .
  moreover have "\<bar>rnd (real_of_int k / real_of_int n) - real_of_int k / real_of_int n\<bar> \<le> 1 / 2 ^ 53"
    using pe unfolding p_hat_f_def .
  ultimately show ?thesis using qe unclipped_example by blast
qed

theorem proportion_ci_is_wald_interval_witness:
  "\<exists>p lo hi q. proportion_ci 949 10000 (Fin (1 / 4)) = Inr (Fin p, Fin lo, Fin hi)
      \<and> q = rnd (1 - 1 / 4 / 2) \<and> \<bar>q - (1 - 1 / 4 / 2)\<bar> \<le> 1 / 2 ^ 53
      \<and> std_normal_cdf (std_normal_quantile q) = q
      \<and> p = rnd (949 / 10000)
      \<and> \<bar>p - 949 / 10000\<bar> \<le> 1 / 2 ^ 53
      \<and> \<bar>lo - (949 / 10000 - std_normal_quantile q
            * sqrt (949 / 10000 * (1 - 949 / 10000) / 10000))\<bar> \<le> 1 / 2 ^ 44
      \<and> \<bar>hi - (949 / 10000 + std_normal_quantile q
            * sqrt (949 / 10000 * (1 - 949 / 10000) / 10000))\<bar> \<le> 1 / 2 ^ 44"
proof -
  have "0 < (10000::int)" "real_of_int 10000 < overflow_threshold" "0 \<le> (949::int)"
    "(949::int) \<le> 10000" "rnd (1 / 4) = 1 / 4" "(1::real) / 2 ^ 53 < 1 / 4" "(1::real) / 4 < 1"
    by (simp_all add: rnd_quarter overflow_threshold_def)
  then show ?thesis
    using proportion_ci_is_wald_interval [of 10000 949 "1 / 4"]
    by (simp only: of_int_numeral) blast
qed






text \<open>
  C6 (as stated it fails).  For \<open>k = n = 100\<close> and \<open>alpha = 2^-70\<close> both bounds are \<open>NaN\<close>, so
  the two distances from the point estimate are \<open>NaN\<close> and equal nothing.  For
  \<open>k = n = 2^1024\<close> no interval is returned: the conversion of \<open>n\<close> to a float raises
  \<open>OverflowError\<close>.
\<close>

theorem proportion_ci_tiny_alpha_not_symmetric:
  "proportion_ci 100 100 (Fin (1 / 2 ^ 70)) = Inr (Fin 1, NaN, NaN)
 \<and> proportion_ci (2 ^ 1024) (2 ^ 1024) default_alpha = Inl OverflowError"
  using proportion_ci_at_ends_tiny_alpha(2) [of 100 "1 / 2 ^ 70"]
    proportion_ci_overflow [of "2 ^ 1024" "2 ^ 1024" default_alpha]
  by (simp add: overflow_threshold_def)

text \<open>
  C6 (amended).  For \<open>0 \<le> k \<le> n\<close>, \<open>n > 0\<close> small enough to be converted to a float and a
  float \<open>alpha\<close> with \<open>2^-53 < alpha < 1\<close>, the interval is symmetric around the point
  estimate up to rounding: \<open>point_estimate - lower_bound\<close> and
  \<open>upper_bound - point_estimate\<close> differ by at most \<open>2^-48\<close>.
\<close>

theorem proportion_ci_symmetric:
  assumes "0 < n" "real_of_int n < overflow_threshold" "0 \<le> k" "k \<le> n"
    and "rnd alpha = alpha" "1 / 2 ^ 53 < alpha" "alpha < 1"
  shows "\<exists>p lo hi. proportion_ci k n (Fin alpha) = Inr (Fin p, Fin lo, Fin hi)
           \<and> \<bar>(p - lo) - (hi - p)\<bar> \<le> 1 / 2 ^ 48"
proof -
  note v = assms(1,3,4)
  note q = q_f_range [OF assms(5-7)]
  note h = hw_f_range [OF v q(2,3)] and p = p_hat_f_range [OF v]
  let ?p = "p_hat_f k n" and ?h = "hw_f k n alpha"
  have b: "\<bar>?p - ?h\<bar> \<le> 16" "\<bar>?p + ?h\<bar> \<le> 16" using h p by linarith+
  have "\<bar>rnd (?p - ?h) - (?p - ?h)\<bar> \<le> 1 / 2 ^ 49"
    using b(1) by (rule rnd_error_16)
  moreover have "\<bar>rnd (?p + ?h) - (?p + ?h)\<bar> \<le> 1 / 2 ^ 49"
    using b(2) by (rule rnd_error_16)
  moreover have "(1::real) / 2 ^ 49 + 1 / 2 ^ 49 = 1 / 2 ^ 48" by simp
  ultimately have "\<bar>(?p - rnd (?p - ?h)) - (rnd (?p + ?h) - ?p)\<bar> \<le> 1 / 2 ^ 48" by linarith
  then show ?thesis
    using proportion_ci_regular [OF assms] by simp
qed

theorem proportion_ci_symmetric_witness:
  "\<exists>p lo hi. proportion_ci 3 7 (Fin (1 / 4)) = Inr (Fin p, Fin lo, Fin hi)
     \<and> \<bar>(p - lo) - (hi - p)\<bar> \<le> 1 / 2 ^ 48"
  using proportion_ci_symmetric [of 7 3 "1 / 4"]
  by (simp add: rnd_quarter overflow_threshold_def)






text \<open>
  C10 (as stated it fails).  For \<open>n = 10\<close> and \<open>alpha = 2^-60\<close> the standard error is \<open>0\<close> at
  \<open>k = 0\<close> and at \<open>k = n\<close>, but the half width is \<open>inf * 0.0\<close> and both bounds are \<open>NaN\<close>.
  For \<open>k = 0\<close> and \<open>n = 2^1024\<close> no interval is returned: the conversion of \<open>n\<close> to a float
  raises \<open>OverflowError\<close>.
\<close>

theorem proportion_ci_tiny_alpha_at_ends_nan:
  "proportion_ci 0 10 (Fin (1 / 2 ^ 60)) = Inr (Fin 0, NaN, NaN)
 \<and> proportion_ci 10 10 (Fin (1 / 2 ^ 60)) = Inr (Fin 1, NaN, NaN)
 \<and> proportion_ci 0 (2 ^ 1024) default_alpha = Inl OverflowError"
  using proportion_ci_at_ends_tiny_alpha [of 10 "1 / 2 ^ 60"]
    proportion_ci_overflow [of 0 "2 ^ 1024" default_alpha]
  by (simp add: overflow_threshold_def)

text \<open>
  C10 (amended).  For \<open>n > 0\<close> small enough to be converted to a float and a float \<open>alpha\<close>
  with \<open>2^-53 < alpha < 1\<close>, if \<open>k = 0\<close> or \<open>k = n\<close> the estimated standard error is exactly
  \<open>0\<close> and the interval collapses onto the point estimate: all three components are \<open>0\<close>
  for \<open>k = 0\<close> and \<open>1\<close> for \<open>k = n\<close>.
\<close>

theorem proportion_ci_degenerate_at_ends:
  assumes "0 < n" "real_of_int n < overflow_threshold"
    and "rnd alpha = alpha" "1 / 2 ^ 53 < alpha" "alpha < 1"
  shows "wald_se_spec 0 n = 0 \<and> proportion_ci 0 n (Fin alpha) = Inr (Fin 0, Fin 0, Fin 0)
       \<and> wald_se_spec n n = 0 \<and> proportion_ci n n (Fin alpha) = Inr (Fin 1, Fin 1, Fin 1)"
proof -
  have "proportion_ci 0 n (Fin alpha) = Inr (Fin 0, Fin 0, Fin 0)"
    using proportion_ci_regular [of n 0 alpha] assms
    by (simp add: p_hat_f_at_ends hw_f_at_ends rnd_0)
  moreover have "proportion_ci n n (Fin alpha) = Inr (Fin 1, Fin 1, Fin 1)"
    using proportion_ci_regular [of n n alpha] assms
    by (simp add: p_hat_f_at_ends hw_f_at_ends rnd_one)
  moreover have "wald_se_spec 0 n = 0" "wald_se_spec n n = 0"
    using assms(1) by (simp_all add: wald_se_spec_def wald_point_spec_def)
  ultimately show ?thesis by simp
qed

theorem proportion_ci_degenerate_at_ends_witness:
  "wald_se_spec 0 100 = 0 \<and> proportion_ci 0 100 (Fin (1 / 4)) = Inr (Fin 0, Fin 0, Fin 0)
   \<and> wald_se_spec 100 100 = 0 \<and> proportion_ci 100 100 (Fin (1 / 4)) = Inr (Fin 1, Fin 1, Fin 1)"
  using proportion_ci_degenerate_at_ends [of 100 "1 / 4"]
  by (simp add: rnd_quarter overflow_threshold_def)


section \<open>The interval estimator outside its domain\<close>

text \<open>
  C8 (as stated it fails).  With \<open>alpha = 1\<close>, which lies outside \<open>(0, 1)\<close>, the estimator
  returns a value instead of failing.
\<close>

theorem proportion_ci_alpha_one_returns:
  "proportion_ci 1 2 (Fin 1) = Inr (Fin (1 / 2), Fin (1 / 2), Fin (1 / 2))"
proof -
  have d: "py_int_truediv 1 2 = Inr (Fin (1 / 2))"
    using py_int_truediv_valid [of 2 1] by (simp add: p_hat_f_def rnd_half)
  have a: "py_float_truediv (Fin 1) (Fin 2) = Inr (Fin (1 / 2))"
    by (simp add: py_float_truediv_def f64_div_Fin fl_small rnd_half)
  have q: "f64_sub (Fin 1) (Fin (1 / 2)) = Fin (1 / 2)"
    by (simp add: f64_sub_Fin fl_small rnd_half)
  have z: "norm_ppf (Fin (1 / 2)) = Fin 0"
    by (simp add: std_normal_quantile_half fl_0)
  have n: "py_float_of_int 2 = Inr (Fin 2)"
    using py_float_of_int_valid [of 2] rnd_int_small [of 2]
    by (simp add: overflow_threshold_def)
  have w: "f64_mul (Fin (1 / 2)) (Fin (1 / 2)) = Fin (1 / 4)"
    by (simp add: f64_mul_Fin fl_small rnd_quarter)
  obtain s where s: "f64_sqrt (Fin (rnd (1 / 8))) = Fin s"
  proof -
    have "0 \<le> rnd (1 / 8)" "rnd (1 / 8) \<le> 1" by (simp_all add: rnd_nonneg rnd_le_one)
    then have "0 \<le> sqrt (rnd (1 / 8))" "sqrt (rnd (1 / 8)) \<le> 1" by simp_all
    then have "\<bar>sqrt (rnd (1 / 8))\<bar> \<le> 16" by linarith
    then have "f64_sqrt (Fin (rnd (1 / 8))) = Fin (rnd (sqrt (rnd (1 / 8))))"
      using \<open>0 \<le> rnd (1 / 8)\<close> by (simp add: f64_sqrt_Fin fl_small)
    then show ?thesis using that by blast
  qed
  have v: "py_float_truediv (Fin (1 / 4)) (Fin 2) = Inr (Fin (rnd (1 / 8)))"
    by (simp add: py_float_truediv_def f64_div_Fin fl_small)
  have m: "f64_mul (Fin 0) (Fin s) = Fin 0" by (simp add: f64_mul_Fin fl_0)
  have e: "f64_sub (Fin (1 / 2)) (Fin 0) = Fin (1 / 2)" "f64_add (Fin (1 / 2)) (Fin 0) = Fin (1 / 2)"
    by (simp_all add: f64_sub_Fin f64_add_Fin fl_small rnd_half)
  show ?thesis
    unfolding proportion_ci_def
    by (simp only: d a q z n w v s m e sum.case Let_def)
qed

text \<open>
  C8 (amended).  The estimator validates none of its arguments and never fails with an
  invalid-argument error (\<open>ValueError\<close>).  With \<open>n = 0\<close> it fails with \<open>ZeroDivisionError\<close>;
  with \<open>n \<noteq> 0\<close>, and \<open>k\<close> and \<open>n\<close> small enough in absolute value to be converted to a float,
  it returns a triple whose point estimate is the float nearest to \<open>k / n\<close>, for every \<open>k\<close>
  and every \<open>alpha\<close>.
\<close>

theorem proportion_ci_without_validation:
  "(n = 0 \<longrightarrow> proportion_ci k n alpha = Inl ZeroDivisionError)
 \<and> (n \<noteq> 0 \<and> \<bar>real_of_int k\<bar> < overflow_threshold \<and> \<bar>real_of_int n\<bar> < overflow_threshold \<longrightarrow>
      (\<exists>lo hi. proportion_ci k n alpha = Inr (Fin (rnd (real_of_int k / real_of_int n)), lo, hi)))
 \<and> proportion_ci k n alpha \<noteq> Inl ValueError"
  using proportion_ci_zero_trials [of k alpha] proportion_ci_returns [of n k alpha]
    proportion_ci_no_value_error [of k n alpha]
  by blast

theorem proportion_ci_without_validation_witness:
  "proportion_ci 5 0 default_alpha = Inl ZeroDivisionError
 \<and> (\<exists>lo hi. proportion_ci 5 (- 10) (Fin 3) = Inr (Fin (rnd (5 / (- 10))), lo, hi))
 \<and> proportion_ci 3 2 NaN \<noteq> Inl ValueError"
  using proportion_ci_without_validation [of 0 5 default_alpha]
    proportion_ci_without_validation [of "- 10" 5 "Fin 3"]
    proportion_ci_without_validation [of 2 3 NaN]
  by (simp add: overflow_threshold_def)


section \<open>The two-proportion test\<close>

lemma pooled_se_spec_eq:
  "pooled_se_spec k1 n1 k2 n2 =
     sqrt (real_of_int (k1 + k2) / real_of_int (n1 + n2)
           * (1 - real_of_int (k1 + k2) / real_of_int (n1 + n2))
           * (1 / real_of_int n1 + 1 / real_of_int n2))"
  by (simp add: pooled_se_spec_def pooled_proportion_spec_def)

lemma proportions_ztest_zstat:
  assumes "0 < n1" "0 < n2"
    and v: "v = real_of_int (k1 + k2) / real_of_int (n1 + n2)
           * (1 - real_of_int (k1 + k2) / real_of_int (n1 + n2))
           * (1 / real_of_int n1 + 1 / real_of_int n2)"
    and z: "zstat = np_div (Fin (real_of_int k1 / real_of_int n1 - real_of_int k2 / real_of_int n2))
                           (np_sqrt (Fin v))"
  shows "proportions_ztest (k1, k2) (n1, n2) alternative =
     (if alternative \<in> set [''two-sided'', ''2-sided'', ''2s'']
        then Inr (zstat, np_mul (norm_sf (np_abs zstat)) (Fin 2))
      else if alternative \<in> set [''larger'', ''l'']
        then Inr (zstat, norm_sf zstat)
      else if alternative \<in> set [''smaller'', ''s'']
        then Inr (zstat, norm_cdf zstat)
      else Inl ValueError)"
proof -
  have n: "real_of_int n1 \<noteq> 0" "real_of_int n2 \<noteq> 0" "real_of_int n1 + real_of_int n2 \<noteq> 0"
    using assms(1,2) by simp_all
  show ?thesis
    unfolding proportions_ztest_def Let_def v z
    using n by (simp add: np_sub_def del: np_sqrt.simps)
qed



lemma proportions_ztest_regular:
  assumes "0 < n1" "0 < n2" "0 < pooled_se_spec k1 n1 k2 n2"
  shows "proportions_ztest (k1, k2) (n1, n2) alternative =
     (if alternative \<in> set [''two-sided'', ''2-sided'', ''2s'']
        then Inr (Fin (- z_statistic_spec k1 n1 k2 n2),
                  Fin (2 * (1 - std_normal_cdf \<bar>z_statistic_spec k1 n1 k2 n2\<bar>)))
      else if alternative \<in> set [''larger'', ''l'']
        then Inr (Fin (- z_statistic_spec k1 n1 k2 n2),
                  Fin (std_normal_cdf (z_statistic_spec k1 n1 k2 n2)))
      else if alternative \<in> set [''smaller'', ''s'']
        then Inr (Fin (- z_statistic_spec k1 n1 k2 n2),
                  Fin (1 - std_normal_cdf (z_statistic_spec k1 n1 k2 n2)))
      else Inl ValueError)"
proof -
  define v where "v = real_of_int (k1 + k2) / real_of_int (n1 + n2)
           * (1 - real_of_int (k1 + k2) / real_of_int (n1 + n2))
           * (1 / real_of_int n1 + 1 / real_of_int n2)"
  define zstat where "zstat =
     np_div (Fin (real_of_int k1 / real_of_int n1 - real_of_int k2 / real_of_int n2)) (np_sqrt (Fin v))"
  have se: "pooled_se_spec k1 n1 k2 n2 = sqrt v" by (simp only: pooled_se_spec_eq v_def)
  with assms(3) have "0 < sqrt v" by simp
  then have "0 < v" by (simp only: real_sqrt_gt_0_iff)
  then have "np_sqrt (Fin v) = Fin (pooled_se_spec k1 n1 k2 n2)" by (simp add: se)
  then have z: "zstat = Fin (- z_statistic_spec k1 n1 k2 n2)"
    using assms(3) by (simp add: zstat_def z_statistic_spec_def minus_divide_left)
  show ?thesis
    using proportions_ztest_zstat [OF assms(1,2) v_def zstat_def, of alternative]
    by (simp add: z norm_sf_def std_normal_cdf_minus)
qed




section \<open>The recorded run: 949 of 10000 against 1243 of 10000\<close>

lemma pooled_se_recorded:
  "44178 / 10000000 \<le> pooled_se_spec 949 10000 1243 10000"
  "pooled_se_spec 949 10000 1243 10000 \<le> 44179 / 10000000"
  unfolding pooled_se_spec_def pooled_proportion_spec_def
  by (rule real_le_rsqrt real_le_lsqrt; simp add: power2_eq_square)+

lemma z_statistic_recorded:
  "6654 / 1000 < z_statistic_spec 949 10000 1243 10000"
  "z_statistic_spec 949 10000 1243 10000 < 6656 / 1000"
proof -
  let ?se = "pooled_se_spec 949 10000 1243 10000"
  have se: "0 < ?se" using pooled_se_recorded(1) by linarith
  have z: "z_statistic_spec 949 10000 1243 10000 = (294 / 10000) / ?se"
    by (simp add: z_statistic_spec_def)
  have "6654 / 1000 * ?se \<le> 6654 / 1000 * (44179 / 10000000)"
    using pooled_se_recorded(2) by simp
  also have "\<dots> < 294 / 10000" by simp
  finally show "6654 / 1000 < z_statistic_spec 949 10000 1243 10000"
    unfolding z using se by (simp add: pos_less_divide_eq)
  have "294 / 10000 < 6656 / 1000 * (44178 / 10000000 :: real)" by simp
  also have "\<dots> \<le> 6656 / 1000 * ?se"
    using pooled_se_recorded(1) by simp
  finally show "z_statistic_spec 949 10000 1243 10000 < 6656 / 1000"
    unfolding z using se by (simp add: pos_divide_less_eq)
qed

lemma ab_ztest_recorded:
  "ab_ztest 949 10000 1243 10000 =
     Inr (Fin (- z_statistic_spec 949 10000 1243 10000),
          Fin (std_normal_cdf (z_statistic_spec 949 10000 1243 10000)))"
proof -
  have "0 < pooled_se_spec 949 10000 1243 10000"
    using pooled_se_recorded(1) by linarith
  then show ?thesis
    unfolding ab_ztest_def by (subst proportions_ztest_regular) simp_all
qed

text \<open>
  C1 (the code departs from it).  On the recorded run the notebook's test returns a statistic
  between \<open>-6.656\<close> and \<open>-6.654\<close> and a p-value above \<open>0.99995\<close>, as its stored output
  \<open>Z-statistic = -6.655, p-value = 1.0000\<close> shows; the p-value is not below \<open>0.0001\<close>.
\<close>

theorem ab_ztest_recorded_p_value:
  "\<exists>z p. ab_ztest 949 10000 1243 10000 = Inr (Fin z, Fin p)
     \<and> - (6656 / 1000) < z \<and> z < - (6654 / 1000) \<and> 99995 / 100000 < p \<and> \<not> p < 1 / 10000"
proof -
  let ?z = "z_statistic_spec 949 10000 1243 10000"
  have "1 - 1 / 1000000 \<le> std_normal_cdf ?z"
    using z_statistic_recorded(1) by (intro std_normal_cdf_tail_5) linarith
  then have "99995 / 100000 < std_normal_cdf ?z" "\<not> std_normal_cdf ?z < 1 / 10000"
    by linarith+
  moreover have "- (6656 / 1000) < - ?z" "- ?z < - (6654 / 1000)"
    using z_statistic_recorded by linarith+
  ultimately show ?thesis
    using ab_ztest_recorded by blast
qed

text \<open>
  C2 (the code departs from it).  On the recorded run, where variant 2's rate exceeds variant
  1's, the statistic the notebook's test returns is the negative of \<open>(p\<^sub>2 - p\<^sub>1) / SE\<close>, and the
  p-value it returns for its direction is \<open>\<Phi>(z)\<close>, which differs from \<open>1 - \<Phi>(z)\<close>.
\<close>

theorem ab_ztest_recorded_sign:
  "ab_ztest 949 10000 1243 10000 =
     Inr (Fin (- z_statistic_spec 949 10000 1243 10000),
          Fin (std_normal_cdf (z_statistic_spec 949 10000 1243 10000)))
   \<and> real_of_int 949 / real_of_int 10000 < real_of_int 1243 / real_of_int 10000
   \<and> 0 < z_statistic_spec 949 10000 1243 10000
   \<and> - z_statistic_spec 949 10000 1243 10000 < 0
   \<and> std_normal_cdf (z_statistic_spec 949 10000 1243 10000)
       \<noteq> 1 - std_normal_cdf (z_statistic_spec 949 10000 1243 10000)"
proof -
  let ?z = "z_statistic_spec 949 10000 1243 10000"
  have z: "0 < ?z" using z_statistic_recorded(1) by linarith
  then have "std_normal_cdf 0 < std_normal_cdf ?z" by (rule std_normal_cdf_strict_mono)
  then have "std_normal_cdf ?z \<noteq> 1 - std_normal_cdf ?z"
    by (simp add: std_normal_cdf_0)
  with z ab_ztest_recorded show ?thesis by simp
qed

lemma rnd_error_eighth: "\<bar>x\<bar> \<le> 1 / 8 \<Longrightarrow> \<bar>rnd x - x\<bar> \<le> 1 / 2 ^ 56"
  using rnd_abs_error [of x "- 3"] by (simp add: power_int_minus_divide)

text \<open>
  C4.  With the default \<open>alpha = 0.05\<close> the estimator returns, for \<open>k = 949\<close>, \<open>n = 10000\<close>, the
  float nearest to \<open>0.0949\<close> as point estimate and bounds within \<open>5 \<times> 10^-7\<close> of \<open>0.089156\<close> and
  \<open>0.100644\<close>, and for \<open>k = 1243\<close>, \<open>n = 10000\<close> the float nearest to \<open>0.1243\<close> and bounds within
  \<open>5 \<times> 10^-7\<close> of \<open>0.117834\<close> and \<open>0.130766\<close>.
\<close>

theorem proportion_ci_recorded_intervals:
  "(\<exists>p lo hi. proportion_ci 949 10000 default_alpha = Inr (Fin p, Fin lo, Fin hi)
      \<and> p = rnd (949 / 10000) \<and> \<bar>p - 949 / 10000\<bar> \<le> 1 / 2 ^ 56
      \<and> \<bar>lo - 89156 / 1000000\<bar> < 5 / 10000000 \<and> \<bar>hi - 100644 / 1000000\<bar> < 5 / 10000000)
 \<and> (\<exists>p lo hi. proportion_ci 1243 10000 default_alpha = Inr (Fin p, Fin lo, Fin hi)
      \<and> p = rnd (1243 / 10000) \<and> \<bar>p - 1243 / 10000\<bar> \<le> 1 / 2 ^ 56
      \<and> \<bar>lo - 117834 / 1000000\<bar> < 5 / 10000000 \<and> \<bar>hi - 130766 / 1000000\<bar> < 5 / 10000000)"
proof (rule conjI)
  let ?lo = "rnd (p_hat_f 949 10000 - hw_f 949 10000 (rnd (5 / 100)))"
  let ?hi = "rnd (p_hat_f 949 10000 + hw_f 949 10000 (rnd (5 / 100)))"
  have r: "proportion_ci 949 10000 default_alpha = Inr (Fin (rnd (949 / 10000)), Fin ?lo, Fin ?hi)"
    using proportion_ci_default [of 10000 949] n_small(1) by (simp add: p_hat_f_def)
  have pe: "\<bar>rnd (949 / 10000) - 949 / 10000\<bar> \<le> 1 / 2 ^ 56"
    by (rule rnd_error_eighth) simp
  have b: "wald_point_spec 949 10000
             - (195999 / 100000 + 1 / 2 ^ 49) * (293077 / 100000000 + 1 / 2 ^ 53) - 1 / 2 ^ 47 \<le> ?lo"
    "?lo \<le> wald_point_spec 949 10000
             - (19598 / 10000 - 1 / 2 ^ 49) * (293076 / 100000000 - 1 / 2 ^ 53) + 1 / 2 ^ 47"
    "wald_point_spec 949 10000
             + (19598 / 10000 - 1 / 2 ^ 49) * (293076 / 100000000 - 1 / 2 ^ 53) - 1 / 2 ^ 47 \<le> ?hi"
    "?hi \<le> wald_point_spec 949 10000
             + (195999 / 100000 + 1 / 2 ^ 49) * (293077 / 100000000 + 1 / 2 ^ 53) + 1 / 2 ^ 47"
    by (rule default_bounds_bracket [where a = "293076 / 100000000" and b = "293077 / 100000000"];
        simp add: wald_point_spec_def power2_eq_square)+
  have "89156 / 1000000 - 5 / 10000000 < wald_point_spec 949 10000
             - (195999 / 100000 + 1 / 2 ^ 49) * (293077 / 100000000 + 1 / 2 ^ 53) - 1 / 2 ^ 47"
    "wald_point_spec 949 10000
             - (19598 / 10000 - 1 / 2 ^ 49) * (293076 / 100000000 - 1 / 2 ^ 53) + 1 / 2 ^ 47
       < 89156 / 1000000 + 5 / 10000000"
    "100644 / 1000000 - 5 / 10000000 < wald_point_spec 949 10000
             + (19598 / 10000 - 1 / 2 ^ 49) * (293076 / 100000000 - 1 / 2 ^ 53) - 1 / 2 ^ 47"
    "wald_point_spec 949 10000
             + (195999 / 100000 + 1 / 2 ^ 49) * (293077 / 100000000 + 1 / 2 ^ 53) + 1 / 2 ^ 47
       < 100644 / 1000000 + 5 / 10000000"
    by (simp_all add: wald_point_spec_def)
  then have "\<bar>?lo - 89156 / 1000000\<bar> < 5 / 10000000" "\<bar>?hi - 100644 / 1000000\<bar> < 5 / 10000000"
    using b by linarith+
  then show "\<exists>p lo hi. proportion_ci 949 10000 default_alpha = Inr (Fin p, Fin lo, Fin hi)
      \<and> p = rnd (949 / 10000) \<and> \<bar>p - 949 / 10000\<bar> \<le> 1 / 2 ^ 56
      \<and> \<bar>lo - 89156 / 1000000\<bar> < 5 / 10000000 \<and> \<bar>hi - 100644 / 1000000\<bar> < 5 / 10000000"
    using r pe by blast
next
  let ?lo = "rnd (p_hat_f 1243 10000 - hw_f 1243 10000 (rnd (5 / 100)))"
  let ?hi = "rnd (p_hat_f 1243 10000 + hw_f 1243 10000 (rnd (5 / 100)))"
  have r: "proportion_ci 1243 10000 default_alpha = Inr (Fin (rnd (1243 / 10000)), Fin ?lo, Fin ?hi)"
    using proportion_ci_default [of 10000 1243] n_small(1) by (simp add: p_hat_f_def)
  have pe: "\<bar>rnd (1243 / 10000) - 1243 / 10000\<bar> \<le> 1 / 2 ^ 56"
    by (rule rnd_error_eighth) simp
  have b: "wald_point_spec 1243 10000
             - (195999 / 100000 + 1 / 2 ^ 49) * (329924 / 100000000 + 1 / 2 ^ 53) - 1 / 2 ^ 47 \<le> ?lo"
    "?lo \<le> wald_point_spec 1243 10000
             - (19598 / 10000 - 1 / 2 ^ 49) * (329923 / 100000000 - 1 / 2 ^ 53) + 1 / 2 ^ 47"
    "wald_point_spec 1243 10000
             + (19598 / 10000 - 1 / 2 ^ 49) * (329923 / 100000000 - 1 / 2 ^ 53) - 1 / 2 ^ 47 \<le> ?hi"
    "?hi \<le> wald_point_spec 1243 10000
             + (195999 / 100000 + 1 / 2 ^ 49) * (329924 / 100000000 + 1 / 2 ^ 53) + 1 / 2 ^ 47"
    by (rule default_bounds_bracket [where a = "329923 / 100000000" and b = "329924 / 100000000"];
        simp add: wald_point_spec_def power2_eq_square)+
  have "117834 / 1000000 - 5 / 10000000 < wald_point_spec 1243 10000
             - (195999 / 100000 + 1 / 2 ^ 49) * (329924 / 100000000 + 1 / 2 ^ 53) - 1 / 2 ^ 47"
    "wald_point_spec 1243 10000
             - (19598 / 10000 - 1 / 2 ^ 49) * (329923 / 100000000 - 1 / 2 ^ 53) + 1 / 2 ^ 47
       < 117834 / 1000000 + 5 / 10000000"
    "130766 / 1000000 - 5 / 10000000 < wald_point_spec 1243 10000
             + (19598 / 10000 - 1 / 2 ^ 49) * (329923 / 100000000 - 1 / 2 ^ 53) - 1 / 2 ^ 47"
    "wald_point_spec 1243 10000
             + (195999 / 100000 + 1 / 2 ^ 49) * (329924 / 100000000 + 1 / 2 ^ 53) + 1 / 2 ^ 47
       < 130766 / 1000000 + 5 / 10000000"
    by (simp_all add: wald_point_spec_def)
  then have "\<bar>?lo - 117834 / 1000000\<bar> < 5 / 10000000" "\<bar>?hi - 130766 / 1000000\<bar> < 5 / 10000000"
    using b by linarith+
  then show "\<exists>p lo hi. proportion_ci 1243 10000 default_alpha = Inr (Fin p, Fin lo, Fin hi)
      \<and> p = rnd (1243 / 10000) \<and> \<bar>p - 1243 / 10000\<bar> \<le> 1 / 2 ^ 56
      \<and> \<bar>lo - 117834 / 1000000\<bar> < 5 / 10000000 \<and> \<bar>hi - 130766 / 1000000\<bar> < 5 / 10000000"
    using r pe by blast
qed

end
